theory Spec2Isabelle
  imports Complex_Main "HOL-Library.Word" "HOL-Library.Log_Nat"
begin

section \<open>Python values\<close>

text \<open>
  Bytes are 8-bit words. A Python \<^verbatim>\<open>str\<close> that is encoded or decoded is a list of code points
  (natural numbers below \<open>0x110000\<close>); file-system paths and tokens, which the code only
  concatenates and compares, are Isabelle strings, converted with \<open>str_of\<close>. Python integers
  are unbounded. Exceptions are values of type \<open>error\<close>.
\<close>

type_synonym byte = "8 word"

type_synonym ustr = "nat list"

datatype error =
    StructError
  | UnicodeEncodeError
  | FileNotFoundError
  | TimeoutExpired
  | RuntimeError
  | TypeError
  | OverflowError
  | ZeroDivisionError
  | ValueError

section \<open>Python floats: IEEE 754 binary64\<close>

text \<open>
  A float is a finite rational, an infinity or a NaN. Every arithmetic operation computes the
  exact result and rounds it to the nearest binary64 value, ties to the even significand:
  53 significant bits, the smallest exponent that of the subnormal numbers (a quantum of
  \<open>2^-1074\<close>), and an infinity when the rounded magnitude reaches \<open>2^1024\<close>. The sign of a
  zero is not kept: nothing in the code divides by a zero or prints one.
\<close>

datatype pyfloat = Fin rat | PInf | NInf | NaN

definition pow2 :: "int \<Rightarrow> rat" where
  "pow2 e = 2 powi e"

text \<open>For \<open>x > 0\<close>, the exponent \<open>e\<close> with \<open>2^e \<le> x < 2^(e+1)\<close>, from the bit lengths of
  the numerator and the denominator.\<close>

definition ilog2 :: "rat \<Rightarrow> int" where
  "ilog2 x =
     (let (p, q) = quotient_of x; e = bitlen p - bitlen q
      in if pow2 e \<le> x then e else e - 1)"

text \<open>Rounding to the nearest integer, ties to even.\<close>

definition rne :: "rat \<Rightarrow> int" where
  "rne y =
     (let f = \<lfloor>y\<rfloor>; d = y - of_int f
      in if d < 1 / 2 then f
         else if 1 / 2 < d then f + 1
         else if even f then f else f + 1)"

definition round_pos :: "rat \<Rightarrow> rat" where
  "round_pos a =
     (let e = max (ilog2 a) (- 1022); u = pow2 (e - 52)
      in of_int (rne (a / u)) * u)"

definition round64 :: "rat \<Rightarrow> pyfloat" where
  "round64 x =
     (if x = 0 then Fin 0
      else if 0 < x then
        (let r = round_pos x in if pow2 1024 \<le> r then PInf else Fin r)
      else
        (let r = round_pos (- x) in if pow2 1024 \<le> r then NInf else Fin (- r)))"

text \<open>\<^verbatim>\<open>float(n)\<close> for an integer, and the true division \<^verbatim>\<open>a / b\<close> of two integers: both are
  correctly rounded, and raise \<^verbatim>\<open>OverflowError\<close> instead of giving an infinity.\<close>

definition float_of_int :: "int \<Rightarrow> error + pyfloat" where
  "float_of_int n =
     (case round64 (of_int n) of
        Fin r \<Rightarrow> Inr (Fin r)
      | _ \<Rightarrow> Inl OverflowError)"

definition int_truediv :: "int \<Rightarrow> int \<Rightarrow> error + pyfloat" where
  "int_truediv a b =
     (if b = 0 then Inl ZeroDivisionError
      else
        (case round64 (of_int a / of_int b) of
           Fin r \<Rightarrow> Inr (Fin r)
         | _ \<Rightarrow> Inl OverflowError))"

text \<open>Float subtraction and multiplication never raise; an overflow gives an infinity.\<close>

fun fsub :: "pyfloat \<Rightarrow> pyfloat \<Rightarrow> pyfloat" where
  "fsub (Fin x) (Fin y) = round64 (x - y)"
| "fsub NaN b = NaN"
| "fsub a NaN = NaN"
| "fsub PInf PInf = NaN"
| "fsub NInf NInf = NaN"
| "fsub PInf b = PInf"
| "fsub NInf b = NInf"
| "fsub (Fin x) PInf = NInf"
| "fsub (Fin x) NInf = PInf"

fun fmul :: "pyfloat \<Rightarrow> pyfloat \<Rightarrow> pyfloat" where
  "fmul (Fin x) (Fin y) = round64 (x * y)"
| "fmul NaN b = NaN"
| "fmul a NaN = NaN"
| "fmul PInf (Fin y) = (if y = 0 then NaN else if 0 < y then PInf else NInf)"
| "fmul NInf (Fin y) = (if y = 0 then NaN else if 0 < y then NInf else PInf)"
| "fmul (Fin x) PInf = (if x = 0 then NaN else if 0 < x then PInf else NInf)"
| "fmul (Fin x) NInf = (if x = 0 then NaN else if 0 < x then NInf else PInf)"
| "fmul PInf PInf = PInf"
| "fmul NInf NInf = PInf"
| "fmul PInf NInf = NInf"
| "fmul NInf PInf = NInf"

text \<open>Float division raises \<^verbatim>\<open>ZeroDivisionError\<close> on a zero divisor.\<close>

fun fdiv :: "pyfloat \<Rightarrow> pyfloat \<Rightarrow> error + pyfloat" where
  "fdiv a (Fin y) =
     (if y = 0 then Inl ZeroDivisionError
      else
        (case a of
           Fin x \<Rightarrow> Inr (round64 (x / y))
         | PInf \<Rightarrow> Inr (if 0 < y then PInf else NInf)
         | NInf \<Rightarrow> Inr (if 0 < y then NInf else PInf)
         | NaN \<Rightarrow> Inr NaN))"
| "fdiv (Fin x) b = Inr (case b of NaN \<Rightarrow> NaN | _ \<Rightarrow> Fin 0)"
| "fdiv a b = Inr NaN"

text \<open>The comparison \<^verbatim>\<open>a < b\<close>; any comparison with a NaN is false.\<close>

fun fless :: "pyfloat \<Rightarrow> pyfloat \<Rightarrow> bool" where
  "fless (Fin x) (Fin y) = (x < y)"
| "fless NaN b = False"
| "fless a NaN = False"
| "fless a NInf = False"
| "fless PInf b = False"
| "fless NInf b = True"
| "fless (Fin x) PInf = True"

text \<open>\<^verbatim>\<open>a >= b\<close>.\<close>

fun fge :: "pyfloat \<Rightarrow> pyfloat \<Rightarrow> bool" where
  "fge NaN b = False"
| "fge a NaN = False"
| "fge a b = (\<not> fless a b)"

text \<open>\<^verbatim>\<open>a <= b\<close>.\<close>

fun fle :: "pyfloat \<Rightarrow> pyfloat \<Rightarrow> bool" where
  "fle a b = fge b a"

text \<open>Truth value of a float: false for zero only.\<close>

definition float_truthy :: "pyfloat \<Rightarrow> bool" where
  "float_truthy a = (a \<noteq> Fin 0)"

text \<open>\<^verbatim>\<open>int(x)\<close> truncates towards zero; it raises on an infinity and on a NaN.\<close>

definition py_int :: "pyfloat \<Rightarrow> error + int" where
  "py_int a =
     (case a of
        Fin x \<Rightarrow> Inr (if 0 \<le> x then \<lfloor>x\<rfloor> else \<lceil>x\<rceil>)
      | NaN \<Rightarrow> Inl ValueError
      | _ \<Rightarrow> Inl OverflowError)"

section \<open>Configuration constants of the re-compression scripts\<close>

text \<open>
  The three re-compression scripts share the timeout and retry constants
  (\<^verbatim>\<open>TIMEOUT_BASE_SEC = 14400\<close>, \<^verbatim>\<open>ADAPTIVE_SAFETY_MARGIN = 600\<close>,
  \<^verbatim>\<open>RETRY_MAX = 6\<close>) and the threshold \<^verbatim>\<open>THRESHOLD_PCT = -3.0\<close>.
\<close>

definition TIMEOUT_BASE_SEC :: int where
  "TIMEOUT_BASE_SEC = 14400"

definition ADAPTIVE_SAFETY_MARGIN :: int where
  "ADAPTIVE_SAFETY_MARGIN = 600"

definition RETRY_MAX :: nat where
  "RETRY_MAX = 6"

definition THRESHOLD_PCT :: pyfloat where
  "THRESHOLD_PCT = Fin (- 3)"

section \<open>Reduction percentage\<close>

text \<open>
  \<^verbatim>\<open>
  def pct_reduction(orig: int, comp: int) -> float:
      if not orig or not comp or orig <= 0:
          return 0.0
      return (1.0 - (comp / orig)) * 100.0
  \<close>
  The caller passes \<^verbatim>\<open>meta["original"]\<close> and \<^verbatim>\<open>meta["compressed"]\<close>, either of which
  may be \<^verbatim>\<open>None\<close>; \<^verbatim>\<open>not x\<close> holds for \<^verbatim>\<open>None\<close> and for \<^verbatim>\<open>0\<close>. The quotient, the
  difference and the product are each rounded.
\<close>

definition py_not :: "int option \<Rightarrow> bool" where
  "py_not x = (case x of None \<Rightarrow> True | Some v \<Rightarrow> v = 0)"

definition pct_reduction :: "int option \<Rightarrow> int option \<Rightarrow> error + pyfloat" where
  "pct_reduction orig compr =
     (if py_not orig \<or> py_not compr \<or> the orig \<le> 0 then Inr (Fin 0)
      else
        (case int_truediv (the compr) (the orig) of
           Inl e \<Rightarrow> Inl e
         | Inr q \<Rightarrow> Inr (fmul (fsub (Fin 1) q) (Fin 100))))"

section \<open>Timeout estimator\<close>

text \<open>
  \<^verbatim>\<open>
  def est_timeout_adaptativo(container_bytes: int, last_bps: float | None) -> int:
      if last_bps and last_bps > 0:
          estimado = int(container_bytes / max(last_bps * 0.30, 1)) + ADAPTIVE_SAFETY_MARGIN
          return max(TIMEOUT_BASE_SEC, estimado)
      return TIMEOUT_BASE_SEC + ADAPTIVE_SAFETY_MARGIN
  \<close>
  The literal \<^verbatim>\<open>0.30\<close> is the binary64 value nearest to 3/10. \<^verbatim>\<open>max(x, 1)\<close> is the integer
  1 when \<^verbatim>\<open>1 > x\<close> and the float \<open>x\<close> otherwise; dividing the integer size by the integer 1
  is a true division of integers, dividing it by a float converts it to a float first.
\<close>

definition float_030 :: pyfloat where
  "float_030 = round64 (3 / 10)"

definition est_timeout_adaptativo :: "int \<Rightarrow> pyfloat option \<Rightarrow> error + int" where
  "est_timeout_adaptativo container_bytes last_bps =
     (case last_bps of
        None \<Rightarrow> Inr (TIMEOUT_BASE_SEC + ADAPTIVE_SAFETY_MARGIN)
      | Some bps \<Rightarrow>
          if float_truthy bps \<and> fless (Fin 0) bps then
            (let x = fmul bps float_030;
                 quotient =
                   (if fless x (Fin 1) then int_truediv container_bytes 1
                    else
                      (case float_of_int container_bytes of
                         Inl e \<Rightarrow> Inl e
                       | Inr c \<Rightarrow> fdiv c x))
             in case quotient of
                  Inl e \<Rightarrow> Inl e
                | Inr q \<Rightarrow>
                    (case py_int q of
                       Inl e \<Rightarrow> Inl e
                     | Inr k \<Rightarrow>
                         (let estimado = k + ADAPTIVE_SAFETY_MARGIN
                          in Inr (max TIMEOUT_BASE_SEC estimado))))
          else Inr (TIMEOUT_BASE_SEC + ADAPTIVE_SAFETY_MARGIN))"

section \<open>Strings\<close>

definition str_of :: "string \<Rightarrow> ustr" where
  "str_of s = map of_char s"

definition py_str :: "ustr \<Rightarrow> bool" where
  "py_str s = list_all (\<lambda>c. c < 0x110000) s"

subsection \<open>Decimal formatting: the format specs \<^verbatim>\<open>{i:04d}\<close> and \<^verbatim>\<open>{it:03d}\<close>\<close>

fun dec_digits :: "nat \<Rightarrow> nat list" where
  "dec_digits n = (if n < 10 then [n] else dec_digits (n div 10) @ [n mod 10])"

declare dec_digits.simps [simp del]

definition digit_char :: "nat \<Rightarrow> char" where
  "digit_char d =
     (if d = 0 then CHR ''0'' else if d = 1 then CHR ''1'' else if d = 2 then CHR ''2''
      else if d = 3 then CHR ''3'' else if d = 4 then CHR ''4'' else if d = 5 then CHR ''5''
      else if d = 6 then CHR ''6'' else if d = 7 then CHR ''7'' else if d = 8 then CHR ''8''
      else CHR ''9'')"

text \<open>\<^verbatim>\<open>f"{n:0wd}"\<close> for \<open>n \<ge> 0\<close>: the decimal digits, padded on the left with zeros to at
  least \<open>w\<close> characters.\<close>

definition fmt_0d :: "nat \<Rightarrow> nat \<Rightarrow> string" where
  "fmt_0d w n =
     replicate (w - length (dec_digits n)) (CHR ''0'') @ map digit_char (dec_digits n)"

text \<open>The number that a string of decimal digits denotes (used to tell formatted indices
  apart).\<close>

definition char_digit :: "char \<Rightarrow> nat" where
  "char_digit c = of_char c - 48"

definition dec_value :: "nat list \<Rightarrow> nat" where
  "dec_value ds = foldl (\<lambda>a d. 10 * a + d) 0 ds"

subsection \<open>\<^verbatim>\<open>struct.pack\<close> and \<^verbatim>\<open>struct.unpack\<close>, little-endian unsigned\<close>

fun le_bytes :: "nat \<Rightarrow> nat \<Rightarrow> byte list" where
  "le_bytes 0 n = []"
| "le_bytes (Suc k) n = of_nat (n mod 256) # le_bytes k (n div 256)"

fun le_val :: "byte list \<Rightarrow> nat" where
  "le_val [] = 0"
| "le_val (b # bs) = unat b + 256 * le_val bs"

text \<open>\<^verbatim>\<open>struct.pack('<I' | '<H' | '<Q', n)\<close> with \<open>k = 4, 2, 8\<close> bytes: \<^verbatim>\<open>struct.error\<close> when
  \<open>n\<close> does not fit.\<close>

definition struct_pack :: "nat \<Rightarrow> nat \<Rightarrow> error + byte list" where
  "struct_pack k n = (if n < 256 ^ k then Inr (le_bytes k n) else Inl StructError)"

text \<open>\<^verbatim>\<open>struct.unpack(fmt, buf)[0]\<close>: \<^verbatim>\<open>struct.error\<close> unless the buffer has exactly \<open>k\<close> bytes.\<close>

definition struct_unpack :: "nat \<Rightarrow> byte list \<Rightarrow> error + nat" where
  "struct_unpack k buf = (if length buf = k then Inr (le_val buf) else Inl StructError)"

subsection \<open>UTF-8: \<^verbatim>\<open>str.encode('utf-8')\<close> and \<^verbatim>\<open>bytes.decode('utf-8', errors='replace')\<close>\<close>

text \<open>Strict encoding: a surrogate code point raises \<^verbatim>\<open>UnicodeEncodeError\<close>. A number from
  \<open>0x110000\<close> on is not a code point of any Python string; the model gives no bytes for it.\<close>

definition utf8_char :: "nat \<Rightarrow> byte list option" where
  "utf8_char c =
     (if c < 0x80 then Some [of_nat c]
      else if c < 0x800 then Some [of_nat (0xC0 + c div 64), of_nat (0x80 + c mod 64)]
      else if 0xD800 \<le> c \<and> c < 0xE000 then None
      else if c < 0x10000 then
        Some [of_nat (0xE0 + c div 4096), of_nat (0x80 + c div 64 mod 64),
              of_nat (0x80 + c mod 64)]
      else if c < 0x110000 then
        Some [of_nat (0xF0 + c div 262144), of_nat (0x80 + c div 4096 mod 64),
              of_nat (0x80 + c div 64 mod 64), of_nat (0x80 + c mod 64)]
      else None)"

fun utf8_encode :: "ustr \<Rightarrow> error + byte list" where
  "utf8_encode [] = Inr []"
| "utf8_encode (c # cs) =
     (case utf8_char c of
        None \<Rightarrow> Inl UnicodeEncodeError
      | Some bs \<Rightarrow>
          (case utf8_encode cs of
             Inl e \<Rightarrow> Inl e
           | Inr rest \<Rightarrow> Inr (bs @ rest)))"

definition is_cont :: "nat \<Rightarrow> bool" where
  "is_cont b = (0x80 \<le> b \<and> b < 0xC0)"

text \<open>
  Decoding with \<^verbatim>\<open>errors='replace'\<close>, on the byte values. An invalid start byte, and every
  maximal prefix of a sequence that a wrong or missing continuation byte cuts short, becomes
  one \<open>U+FFFD\<close>; decoding resumes at the offending byte. The second byte is range-checked
  against overlong forms, surrogates and values above \<open>U+10FFFF\<close>, as CPython does.
\<close>

fun utf8_dec :: "nat list \<Rightarrow> ustr" where
  "utf8_dec [] = []"
| "utf8_dec (b0 # bs) =
     (if b0 < 0x80 then b0 # utf8_dec bs
      else if b0 < 0xC2 then 0xFFFD # utf8_dec bs
      else if b0 < 0xE0 then
        (case bs of
           [] \<Rightarrow> [0xFFFD]
         | b1 # r1 \<Rightarrow>
             if is_cont b1 then ((b0 - 0xC0) * 64 + (b1 - 0x80)) # utf8_dec r1
             else 0xFFFD # utf8_dec bs)
      else if b0 < 0xF0 then
        (case bs of
           [] \<Rightarrow> [0xFFFD]
         | b1 # r1 \<Rightarrow>
             if \<not> is_cont b1 \<or> (b0 = 0xE0 \<and> b1 < 0xA0) \<or> (b0 = 0xED \<and> 0xA0 \<le> b1)
             then 0xFFFD # utf8_dec bs
             else
               (case r1 of
                  [] \<Rightarrow> [0xFFFD]
                | b2 # r2 \<Rightarrow>
                    if is_cont b2
                    then ((b0 - 0xE0) * 4096 + (b1 - 0x80) * 64 + (b2 - 0x80)) # utf8_dec r2
                    else 0xFFFD # utf8_dec r1))
      else if b0 < 0xF5 then
        (case bs of
           [] \<Rightarrow> [0xFFFD]
         | b1 # r1 \<Rightarrow>
             if \<not> is_cont b1 \<or> (b0 = 0xF0 \<and> b1 < 0x90) \<or> (b0 = 0xF4 \<and> 0x90 \<le> b1)
             then 0xFFFD # utf8_dec bs
             else
               (case r1 of
                  [] \<Rightarrow> [0xFFFD]
                | b2 # r2 \<Rightarrow>
                    if \<not> is_cont b2 then 0xFFFD # utf8_dec r1
                    else
                      (case r2 of
                         [] \<Rightarrow> [0xFFFD]
                       | b3 # r3 \<Rightarrow>
                           if is_cont b3
                           then ((b0 - 0xF0) * 262144 + (b1 - 0x80) * 4096
                                   + (b2 - 0x80) * 64 + (b3 - 0x80)) # utf8_dec r3
                           else 0xFFFD # utf8_dec r2)))
      else 0xFFFD # utf8_dec bs)"

declare utf8_dec.simps [simp del]

definition utf8_decode_replace :: "byte list \<Rightarrow> ustr" where
  "utf8_decode_replace bs = utf8_dec (map unat bs)"

section \<open>Container codec\<close>

text \<open>
  \<^verbatim>\<open>
  def pack_container(src_file: Path, copies: int, out_path: Path):
      data = src_file.read_bytes()
      with out_path.open('wb') as f:
          f.write(struct.pack('<I', copies))
          base = src_file.name
          for i in range(1, copies+1):
              name = f"copy_{i:04d}_" + base
              name_b = name.encode('utf-8')
              f.write(struct.pack('<H', len(name_b)))
              f.write(name_b)
              f.write(struct.pack('<Q', len(data)))
              f.write(data)
      return out_path
  \<close>
  The model takes the bytes read from the source file and its base name, and returns the bytes
  written to \<^verbatim>\<open>out_path\<close>, or the exception that ends the call. The copy count is a natural
  number: the callers pass the iteration index.
\<close>

definition copy_name :: "nat \<Rightarrow> ustr \<Rightarrow> ustr" where
  "copy_name i base = str_of (''copy_'' @ fmt_0d 4 i @ ''_'') @ base"

definition pack_entry :: "byte list \<Rightarrow> ustr \<Rightarrow> nat \<Rightarrow> error + byte list" where
  "pack_entry data base i =
     (case utf8_encode (copy_name i base) of
        Inl e \<Rightarrow> Inl e
      | Inr name_b \<Rightarrow>
          (case struct_pack 2 (length name_b) of
             Inl e \<Rightarrow> Inl e
           | Inr name_len \<Rightarrow>
               (case struct_pack 8 (length data) of
                  Inl e \<Rightarrow> Inl e
                | Inr data_len \<Rightarrow> Inr (name_len @ name_b @ data_len @ data))))"

fun pack_entries :: "byte list \<Rightarrow> ustr \<Rightarrow> nat list \<Rightarrow> error + byte list" where
  "pack_entries data base [] = Inr []"
| "pack_entries data base (i # is) =
     (case pack_entry data base i of
        Inl e \<Rightarrow> Inl e
      | Inr entry \<Rightarrow>
          (case pack_entries data base is of
             Inl e \<Rightarrow> Inl e
           | Inr rest \<Rightarrow> Inr (entry @ rest)))"

definition pack_container :: "byte list \<Rightarrow> nat \<Rightarrow> ustr \<Rightarrow> error + byte list" where
  "pack_container data copies base =
     (case struct_pack 4 copies of
        Inl e \<Rightarrow> Inl e
      | Inr header \<Rightarrow>
          (case pack_entries data base [1..<copies + 1] of
             Inl e \<Rightarrow> Inl e
           | Inr entries \<Rightarrow> Inr (header @ entries)))"

text \<open>
  \<^verbatim>\<open>
  def unpack_container(container_path: Path, out_dir: Path):
      files = []
      with container_path.open('rb') as f:
          n = struct.unpack('<I', f.read(4))[0]
          for _ in range(n):
              name_len = struct.unpack('<H', f.read(2))[0]
              name = f.read(name_len).decode('utf-8', errors='replace')
              data_len = struct.unpack('<Q', f.read(8))[0]
              data = f.read(data_len)
              out_path = out_dir / name
              out_path.parent.mkdir(parents=True, exist_ok=True)
              out_path.write_bytes(data)
              files.append(out_path)
      return files
  \<close>
  \<^verbatim>\<open>f.read(k)\<close> returns the next \<open>k\<close> bytes, or fewer at the end of the file: \<open>take\<close> and
  \<open>drop\<close>. The model returns the files in the order they are written, each as the name joined
  to \<^verbatim>\<open>out_dir\<close> and the bytes written. Whether the file system accepts a name is outside the
  model; a name made from the base name of an existing file is a plain child of \<^verbatim>\<open>out_dir\<close>.
\<close>

fun unpack_entries :: "nat \<Rightarrow> byte list \<Rightarrow> error + (ustr \<times> byte list) list" where
  "unpack_entries 0 f = Inr []"
| "unpack_entries (Suc n) f =
     (case struct_unpack 2 (take 2 f) of
        Inl e \<Rightarrow> Inl e
      | Inr name_len \<Rightarrow>
          (let f1 = drop 2 f;
               name = utf8_decode_replace (take name_len f1);
               f2 = drop name_len f1
           in case struct_unpack 8 (take 8 f2) of
                Inl e \<Rightarrow> Inl e
              | Inr data_len \<Rightarrow>
                  (let f3 = drop 8 f2;
                       data = take data_len f3
                   in case unpack_entries n (drop data_len f3) of
                        Inl e \<Rightarrow> Inl e
                      | Inr files \<Rightarrow> Inr ((name, data) # files))))"

definition unpack_container :: "byte list \<Rightarrow> error + (ustr \<times> byte list) list" where
  "unpack_container f =
     (case struct_unpack 4 (take 4 f) of
        Inl e \<Rightarrow> Inl e
      | Inr n \<Rightarrow> unpack_entries n (drop 4 f))"

text \<open>The directory after the writes: a later write to the same path replaces the earlier.\<close>

fun write_files :: "(ustr \<times> byte list) list \<Rightarrow> (ustr \<rightharpoonup> byte list) \<Rightarrow> (ustr \<rightharpoonup> byte list)" where
  "write_files [] dir = dir"
| "write_files ((name, data) # files) dir = write_files files (dir(name \<mapsto> data))"

text \<open>
  \<^verbatim>\<open>
  def is_container(path: Path) -> bool:
      try:
          with path.open('rb') as f:
              if len(f.read(4)) < 4:
                  return False
              f.seek(0)
              n = struct.unpack('<I', f.read(4))[0]
              if n == 0 or n > 1_000_000:
                  return False
              name_len_b = f.read(2)
              if len(name_len_b) < 2:
                  return False
              name_len = struct.unpack('<H', name_len_b)[0]
              if name_len <= 0 or name_len > 4096:
                  return False
              name = f.read(name_len)
              if len(name) < name_len:
                  return False
              size_b = f.read(8)
              if len(size_b) < 8:
                  return False
              size = struct.unpack('<Q', size_b)[0]
              if size > (path.stat().st_size - f.tell()):
                  return False
              return True
      except Exception:
          return False
  \<close>
  The model takes the bytes of the file; \<^verbatim>\<open>st_size\<close> is their number and \<^verbatim>\<open>f.tell()\<close> the
  number of bytes read so far.
\<close>

definition is_container :: "byte list \<Rightarrow> bool" where
  "is_container f =
     (if length (take 4 f) < 4 then False
      else
        (let n = le_val (take 4 f) in
         if n = 0 \<or> n > 1000000 then False
         else
           (let name_len_b = take 2 (drop 4 f) in
            if length name_len_b < 2 then False
            else
              (let name_len = le_val name_len_b in
               if name_len \<le> 0 \<or> name_len > 4096 then False
               else
                 (let name = take name_len (drop 6 f) in
                  if length name < name_len then False
                  else
                    (let size_b = take 8 (drop (6 + length name) f) in
                     if length size_b < 8 then False
                     else
                       (let size = le_val size_b;
                            tell = 6 + length name + length size_b
                        in if int size > int (length f) - int tell then False
                           else True)))))))"

text \<open>\<^verbatim>\<open>is_container\<close> on the file that \<^verbatim>\<open>pack_container\<close> wrote, when it wrote one.\<close>

definition sniff_packed :: "byte list \<Rightarrow> nat \<Rightarrow> ustr \<Rightarrow> bool option" where
  "sniff_packed data copies base =
     (case pack_container data copies base of
        Inl e \<Rightarrow> None
      | Inr f \<Rightarrow> Some (is_container f))"

section \<open>The re-compression pipelines\<close>

text \<open>
  The scripts \<^verbatim>\<open>recompress_conteiner_gmix.py\<close>, \<^verbatim>\<open>recompress_conteiner_bsc.py\<close> and
  \<^verbatim>\<open>recompress_conteiner_paq.py\<close> have the same \<^verbatim>\<open>main\<close> up to their module constants, the
  compressor they call and the extension of its output. The constants are a record.
\<close>

record config =
  INPUT_FILE :: string
  WORKDIR :: string
  FINALDIR :: string
  CSV_LOG :: string
  MAX_ITERS :: nat
  out_ext :: string
  algorithm :: string



text \<open>
  What \<^verbatim>\<open>gmix_compress\<close>, \<^verbatim>\<open>bsc_compress\<close> and \<^verbatim>\<open>paq8px_compress\<close> return: the original
  size (parsed from the tool's log or the size of the input file), the compressed size
  (\<^verbatim>\<open>None\<close> when the log has none and no output file exists) and the time in seconds.
\<close>

record meta =
  original :: int
  compressed :: "int option"
  time_s :: pyfloat

text \<open>
  The environment of a run: the bytes of \<^verbatim>\<open>INPUT_FILE\<close> (\<open>None\<close> when the file does not
  exist), the files present before the run, what the call of the compressor does at a given
  iteration and attempt with a given timeout (it returns a \<open>meta\<close> or raises), and whether
  the output file of an iteration exists after its call returned.
\<close>

record env =
  src :: "byte list option"
  existing :: "string set"
  adapter :: "nat \<Rightarrow> nat \<Rightarrow> int \<Rightarrow> error + meta"
  out_exists :: "nat \<Rightarrow> bool"

text \<open>A printed decimal, as the number it denotes: \<^verbatim>\<open>f"{x:.4f}"\<close> rounds the exact value of
  the float to 4 decimals, ties to even.\<close>

datatype printed = Dec rat | Txt_inf | Txt_neg_inf | Txt_nan

definition fmt_4f :: "pyfloat \<Rightarrow> printed" where
  "fmt_4f a =
     (case a of
        Fin x \<Rightarrow> Dec (of_int (rne (x * 10000)) / 10000)
      | PInf \<Rightarrow> Txt_inf
      | NInf \<Rightarrow> Txt_neg_inf
      | NaN \<Rightarrow> Txt_nan)"

record csv_row =
  r_iter :: nat
  r_copies :: nat
  r_container_bytes :: int
  r_out_bytes :: "int option"
  r_reduction_pct :: printed
  r_time_s :: printed
  r_container_path :: string
  r_out_path :: string

record manifest =
  m_input_file :: string
  m_algorithm :: string
  m_threshold_pct :: pyfloat
  m_max_iters :: nat
  m_best_iter :: nat
  m_best_copies :: nat
  m_original_bytes :: int
  m_out_bytes :: "int option"
  m_reduction_pct :: pyfloat
  m_time_s :: pyfloat
  m_inner_files :: "ustr list"

text \<open>What a run does to the file system and to the compressor, in order.\<close>

datatype event =
    MkDir string
  | WriteCsvHeader string
  | PackContainer string nat
  | Invoke nat nat int
  | AppendCsv csv_row
  | CopyFile string string
  | WriteManifest string manifest

record best_rec =
  b_iter :: nat
  b_copies :: nat
  b_container :: string
  b_out :: string
  b_meta :: meta

record state =
  best :: "best_rec option"
  last_bps :: "pyfloat option"
  present :: "string set"
  trace :: "event list"

definition emit :: "event \<Rightarrow> state \<Rightarrow> state" where
  "emit ev st = st\<lparr>trace := trace st @ [ev]\<rparr>"

text \<open>How the body of a loop ends: it falls through to the next round, breaks, or raises.\<close>

datatype 'a flow = Continue 'a | Break 'a | Raise error 'a

subsection \<open>The retry loop around the compressor call\<close>

text \<open>
  \<^verbatim>\<open>
  attempt = 1
  stop_due_timeout = False
  while True:
      try:
          meta = gmix_compress(container_path, gmix_out, timeout_s)
          break
      except subprocess.TimeoutExpired:
          if attempt >= RETRY_MAX:
              if best is None:
                  raise
              stop_due_timeout = True
              break
          attempt += 1
          timeout_s *= 2
          continue
  \<close>
  The loop ends with the \<open>meta\<close> of a call that returned, with the retries exhausted (the
  caller then raises or stops, by \<^verbatim>\<open>best\<close>), or with an exception other than a timeout, which
  no handler catches. The model also returns the calls made, each with its attempt number and
  its timeout.
\<close>

datatype outcome = Succeeded meta | Exhausted | Propagated error

function retry :: "(nat \<Rightarrow> int \<Rightarrow> error + meta) \<Rightarrow> nat \<Rightarrow> int \<Rightarrow> outcome \<times> (nat \<times> int) list" where
  "retry call attempt timeout_s =
     (case call attempt timeout_s of
        Inr m \<Rightarrow> (Succeeded m, [(attempt, timeout_s)])
      | Inl e \<Rightarrow>
          if e = TimeoutExpired then
            (if attempt \<ge> RETRY_MAX then (Exhausted, [(attempt, timeout_s)])
             else map_prod id ((#) (attempt, timeout_s))
                    (retry call (attempt + 1) (timeout_s * 2)))
          else (Propagated e, [(attempt, timeout_s)]))"
  by pat_completeness auto
termination
  by (relation "measure (\<lambda>(call, attempt, timeout_s). RETRY_MAX - attempt)") auto

declare retry.simps [simp del]

subsection \<open>One iteration of the search loop\<close>

text \<open>\<^verbatim>\<open>human(n)\<close> in the progress line: it compares \<open>n\<close> with \<^verbatim>\<open>1024.0\<close> and, from 1024 on,
  divides it by \<^verbatim>\<open>1024.0\<close>. It raises \<^verbatim>\<open>TypeError\<close> on \<^verbatim>\<open>None\<close> and \<^verbatim>\<open>OverflowError\<close> on an
  integer too large for a float; the text it returns is not modelled.\<close>

definition human_raises :: "int option \<Rightarrow> error option" where
  "human_raises n =
     (case n of
        None \<Rightarrow> Some TypeError
      | Some v \<Rightarrow>
          if v < 1024 then None
          else (case float_of_int v of Inl e \<Rightarrow> Some e | Inr x \<Rightarrow> None))"

definition iter_dir :: "config \<Rightarrow> nat \<Rightarrow> string" where
  "iter_dir cfg it = WORKDIR cfg @ ''/iter_'' @ fmt_0d 3 it"

definition container_path :: "config \<Rightarrow> nat \<Rightarrow> string" where
  "container_path cfg it = iter_dir cfg it @ ''/container_'' @ fmt_0d 3 it @ ''.bin''"

definition out_path :: "config \<Rightarrow> nat \<Rightarrow> string" where
  "out_path cfg it = iter_dir cfg it @ ''/container_'' @ fmt_0d 3 it @ ''.'' @ out_ext cfg"

text \<open>The update of the observed throughput:
  \<^verbatim>\<open>if meta.get('time_s') and meta['time_s'] > 0 and meta.get('original'):
      last_bps = meta['original'] / meta['time_s']\<close>\<close>

definition update_bps :: "meta \<Rightarrow> pyfloat option \<Rightarrow> error + pyfloat option" where
  "update_bps m lb =
     (if float_truthy (time_s m) \<and> fless (Fin 0) (time_s m) \<and> original m \<noteq> 0 then
        (case float_of_int (original m) of
           Inl e \<Rightarrow> Inl e
         | Inr x \<Rightarrow> (case fdiv x (time_s m) of Inl e \<Rightarrow> Inl e | Inr b \<Rightarrow> Inr (Some b)))
      else Inr lb)"

text \<open>
  The body of \<^verbatim>\<open>for it in range(1, MAX_ITERS+1)\<close> up to its last statement, in the order of
  the source: make the directory, pack, estimate the timeout, call the compressor with
  retries, check the output file, compute the reduction, append the CSV row, update the
  throughput, print. It ends early by an exception or by the exhausted retries; otherwise it
  reaches the last statement with the \<open>meta\<close> of the call and the reduction.
\<close>

datatype measured = Measured meta pyfloat state | Ended "state flow"

definition measure_iteration :: "config \<Rightarrow> env \<Rightarrow> nat \<Rightarrow> state \<Rightarrow> measured" where
  "measure_iteration cfg ev it st =
     (let copies = it;
          st1 = emit (MkDir (iter_dir cfg it)) st
      in case pack_container (the (src ev)) copies (str_of (INPUT_FILE cfg)) of
           Inl e \<Rightarrow> Ended (Raise e st1)
         | Inr bytes \<Rightarrow>
             (let st2 = (emit (PackContainer (container_path cfg it) copies) st1)
                          \<lparr>present := insert (container_path cfg it) (present st1)\<rparr>;
                  cont_bytes = int (length bytes)
              in case est_timeout_adaptativo cont_bytes (last_bps st2) of
                   Inl e \<Rightarrow> Ended (Raise e st2)
                 | Inr timeout_s \<Rightarrow>
                     (let res = retry (adapter ev it) 1 timeout_s;
                          st3 = st2\<lparr>trace := trace st2
                                            @ map (\<lambda>(a, t). Invoke it a t) (snd res)\<rparr>
                      in case fst res of
                           Propagated e \<Rightarrow> Ended (Raise e st3)
                         | Exhausted \<Rightarrow>
                             if best st3 = None then Ended (Raise TimeoutExpired st3)
                             else Ended (Break st3)
                         | Succeeded m \<Rightarrow>
                             if \<not> out_exists ev it then Ended (Raise RuntimeError st3)
                             else
                               (let st4 = st3\<lparr>present := insert (out_path cfg it)
                                                              (present st3)\<rparr>
                                in case pct_reduction (Some (original m)) (compressed m) of
                                     Inl e \<Rightarrow> Ended (Raise e st4)
                                   | Inr red \<Rightarrow>
                                       (let st5 = emit (AppendCsv
                                              \<lparr>r_iter = it, r_copies = copies,
                                               r_container_bytes = cont_bytes,
                                               r_out_bytes = compressed m,
                                               r_reduction_pct = fmt_4f red,
                                               r_time_s = fmt_4f (time_s m),
                                               r_container_path = container_path cfg it,
                                               r_out_path = out_path cfg it\<rparr>) st4
                                        in case update_bps m (last_bps st5) of
                                             Inl e \<Rightarrow> Ended (Raise e st5)
                                           | Inr lb \<Rightarrow>
                                               (let st6 = st5\<lparr>last_bps := lb\<rparr>
                                                in case human_raises (Some cont_bytes) of
                                                     Some e \<Rightarrow> Ended (Raise e st6)
                                                   | None \<Rightarrow>
                                                       (case human_raises (compressed m) of
                                                          Some e \<Rightarrow> Ended (Raise e st6)
                                                        | None \<Rightarrow> Measured m red st6)))))))"

text \<open>
  The last statement of the body:
  \<^verbatim>\<open>
  if red >= THRESHOLD_PCT:
      best = {"iter": it, "copies": copies, "container": str(container_path),
              "gmix": str(gmix_out), "meta": meta}
  else:
      break
  \<close>
\<close>

definition iteration :: "config \<Rightarrow> env \<Rightarrow> nat \<Rightarrow> state \<Rightarrow> state flow" where
  "iteration cfg ev it st =
     (case measure_iteration cfg ev it st of
        Ended f \<Rightarrow> f
      | Measured m red st6 \<Rightarrow>
          if fge red THRESHOLD_PCT then
            Continue (st6\<lparr>best := Some
              \<lparr>b_iter = it, b_copies = it, b_container = container_path cfg it,
               b_out = out_path cfg it, b_meta = m\<rparr>\<rparr>)
          else Break st6)"

subsection \<open>The search loop and the finalization\<close>

fun for_loop :: "(nat \<Rightarrow> state \<Rightarrow> state flow) \<Rightarrow> nat list \<Rightarrow> state \<Rightarrow> error option \<times> state" where
  "for_loop body [] st = (None, st)"
| "for_loop body (it # its) st =
     (case body it st of
        Continue st' \<Rightarrow> for_loop body its st'
      | Break st' \<Rightarrow> (None, st')
      | Raise e st' \<Rightarrow> (Some e, st'))"

text \<open>\<^verbatim>\<open>shutil.copy2(src, dst)\<close>: the source must exist.\<close>

definition copy2 :: "string \<Rightarrow> string \<Rightarrow> state \<Rightarrow> error + state" where
  "copy2 a b st =
     (if a \<in> present st then Inr ((emit (CopyFile a b) st)\<lparr>present := insert b (present st)\<rparr>)
      else Inl FileNotFoundError)"

definition final_path :: "config \<Rightarrow> best_rec \<Rightarrow> string \<Rightarrow> string" where
  "final_path cfg b ext =
     FINALDIR cfg @ ''/final_container_iter_'' @ fmt_0d 3 (b_iter b) @ ''_N_''
       @ fmt_0d 4 (b_copies b) @ ''.'' @ ext"

definition inner_files :: "config \<Rightarrow> nat \<Rightarrow> ustr list" where
  "inner_files cfg copies =
     map (\<lambda>i. str_of (''copy_'' @ fmt_0d 4 (i + 1) @ ''_'') @ str_of (INPUT_FILE cfg))
       [0..<copies]"

text \<open>
  What follows the loop. With no best iteration the first iteration's container and output
  are copied under their own names and the function returns; otherwise the best iteration's
  files are copied under the final names and \<^verbatim>\<open>manifest.json\<close> is written.
\<close>

definition finalize :: "config \<Rightarrow> state \<Rightarrow> error option \<times> state" where
  "finalize cfg st =
     (case best st of
        None \<Rightarrow>
          (let st1 = emit (MkDir (FINALDIR cfg)) st
           in case copy2 (container_path cfg 1)
                     (FINALDIR cfg @ ''/container_'' @ fmt_0d 3 1 @ ''.bin'') st1 of
                Inl e \<Rightarrow> (Some e, st1)
              | Inr st2 \<Rightarrow>
                  (case copy2 (out_path cfg 1)
                          (FINALDIR cfg @ ''/container_'' @ fmt_0d 3 1 @ ''.'' @ out_ext cfg)
                          st2 of
                     Inl e \<Rightarrow> (Some e, st2)
                   | Inr st3 \<Rightarrow> (None, st3)))
      | Some b \<Rightarrow>
          (let st1 = emit (MkDir (FINALDIR cfg)) st
           in case copy2 (b_container b) (final_path cfg b ''bin'') st1 of
                Inl e \<Rightarrow> (Some e, st1)
              | Inr st2 \<Rightarrow>
                  (case copy2 (b_out b) (final_path cfg b (out_ext cfg)) st2 of
                     Inl e \<Rightarrow> (Some e, st2)
                   | Inr st3 \<Rightarrow>
                       (case pct_reduction (Some (original (b_meta b)))
                               (compressed (b_meta b)) of
                          Inl e \<Rightarrow> (Some e, st3)
                        | Inr red \<Rightarrow>
                            (None,
                             emit (WriteManifest (FINALDIR cfg @ ''/manifest.json'')
                               \<lparr>m_input_file = INPUT_FILE cfg,
                                m_algorithm = algorithm cfg,
                                m_threshold_pct = THRESHOLD_PCT,
                                m_max_iters = MAX_ITERS cfg,
                                m_best_iter = b_iter b,
                                m_best_copies = b_copies b,
                                m_original_bytes = original (b_meta b),
                                m_out_bytes = compressed (b_meta b),
                                m_reduction_pct = red,
                                m_time_s = time_s (b_meta b),
                                m_inner_files = inner_files cfg (b_copies b)\<rparr>) st3)))))"

text \<open>
  \<^verbatim>\<open>main\<close>: create the directories, write the CSV header unless the log exists, fail when the
  input file is missing, run the loop, finalize. The result is the exception that ended the
  run, if any, and the final state.
\<close>

definition init_state :: "env \<Rightarrow> state" where
  "init_state ev = \<lparr>best = None, last_bps = None, present = existing ev, trace = []\<rparr>"

definition start :: "config \<Rightarrow> env \<Rightarrow> state" where
  "start cfg ev =
     (let st0 = emit (MkDir (FINALDIR cfg)) (emit (MkDir (WORKDIR cfg)) (init_state ev))
      in if CSV_LOG cfg \<in> existing ev then st0
         else (emit (WriteCsvHeader (CSV_LOG cfg)) st0)
                \<lparr>present := insert (CSV_LOG cfg) (present st0)\<rparr>)"

definition main :: "config \<Rightarrow> env \<Rightarrow> error option \<times> state" where
  "main cfg ev =
     (let st1 = start cfg ev
      in if src ev = None then (Some FileNotFoundError, st1)
         else
           (case for_loop (iteration cfg ev) [1..<MAX_ITERS cfg + 1] st1 of
              (Some e, st2) \<Rightarrow> (Some e, st2)
            | (None, st2) \<Rightarrow> finalize cfg st2))"

section \<open>Properties\<close>

subsection \<open>Container codec: UTF-8 round trip\<close>

lemma split3: "(c::nat) = (c div 4096) * 4096 + (c div 64 mod 64) * 64 + c mod 64"
proof -
  define q where "q = c div 64"
  have 3: "q div 64 = c div 4096" unfolding q_def by (simp add: div_mult2_eq)
  have 1: "c = q * 64 + c mod 64" unfolding q_def by simp
  have "q = (q div 64) * 64 + q mod 64" by simp
  then have "q * 64 = ((q div 64) * 64 + q mod 64) * 64" by (rule arg_cong)
  also have "\<dots> = (q div 64) * 4096 + (q mod 64) * 64"
    unfolding add_mult_distrib mult.assoc by simp
  finally have 2: "q * 64 = (q div 64) * 4096 + (q mod 64) * 64" .
  from 1 2 have "c = (q div 64) * 4096 + (q mod 64) * 64 + c mod 64" by simp
  then show ?thesis unfolding 3 unfolding q_def .
qed

lemma split4:
  "(c::nat) = (c div 262144) * 262144 + (c div 4096 mod 64) * 4096 + (c div 64 mod 64) * 64 + c mod 64"
proof -
  define p where "p = c div 4096"
  have 3: "p div 64 = c div 262144" unfolding p_def by (simp add: div_mult2_eq)
  have "p = (p div 64) * 64 + p mod 64" by simp
  then have "p * 4096 = ((p div 64) * 64 + p mod 64) * 4096" by (rule arg_cong)
  also have "\<dots> = (p div 64) * 262144 + (p mod 64) * 4096"
    unfolding add_mult_distrib mult.assoc by simp
  finally have 2: "p * 4096 = (p div 64) * 262144 + (p mod 64) * 4096" .
  have "c = p * 4096 + (c div 64 mod 64) * 64 + c mod 64"
    unfolding p_def by (rule split3)
  with 2 have "c = (p div 64) * 262144 + (p mod 64) * 4096 + (c div 64 mod 64) * 64 + c mod 64"
    by simp
  then show ?thesis unfolding 3 unfolding p_def .
qed


lemma unat_byte: "x < 256 \<Longrightarrow> unat (of_nat x :: byte) = x"
  by (simp add: unat_of_nat)

lemma utf8_dec_1: "c < 0x80 \<Longrightarrow> utf8_dec (c # rest) = c # utf8_dec rest"
  by (subst utf8_dec.simps) simp

lemma utf8_dec_2:
  assumes "2 \<le> x" "x < 32" "y < 64"
  shows "utf8_dec ((0xC0 + x) # (0x80 + y) # rest) = (x * 64 + y) # utf8_dec rest"
proof -
  have b0: "0xC0 + x < 0xE0" using assms by arith
  have n0: "\<not> 0xC0 + x < 0x80" "\<not> 0xC0 + x < 0xC2" using assms by arith+
  have b1: "is_cont (0x80 + y)" using assms by (simp add: is_cont_def)
  have v: "(0xC0 + x - 0xC0) * 64 + (0x80 + y - 0x80) = x * 64 + y" by simp
  show ?thesis
    by (subst utf8_dec.simps) (simp only: n0 b0 b1 v if_True if_False list.case)
qed

lemma utf8_dec_3:
  assumes "x < 16" "y < 64" "z < 64" "x = 0 \<longrightarrow> 32 \<le> y" "x = 13 \<longrightarrow> y < 32"
  shows "utf8_dec ((0xE0 + x) # (0x80 + y) # (0x80 + z) # rest)
           = (x * 4096 + y * 64 + z) # utf8_dec rest"
proof -
  have b0: "0xE0 + x < 0xF0" using assms by arith
  have n0: "\<not> 0xE0 + x < 0x80" "\<not> 0xE0 + x < 0xC2" "\<not> 0xE0 + x < 0xE0" by arith+
  have b1: "is_cont (0x80 + y)" using assms by (simp add: is_cont_def)
  have b2: "is_cont (0x80 + z)" using assms by (simp add: is_cont_def)
  have e0: "\<not> (0xE0 + x = 0xE0 \<and> 0x80 + y < 0xA0)" using assms by arith
  have ed: "\<not> (0xE0 + x = 0xED \<and> 0xA0 \<le> 0x80 + y)" using assms by arith
  have chk: "(\<not> is_cont (0x80 + y) \<or> (0xE0 + x = 0xE0 \<and> 0x80 + y < 0xA0)
               \<or> (0xE0 + x = 0xED \<and> 0xA0 \<le> 0x80 + y)) = False"
    using b1 e0 ed by blast
  have v: "(0xE0 + x - 0xE0) * 4096 + (0x80 + y - 0x80) * 64 + (0x80 + z - 0x80)
             = x * 4096 + y * 64 + z" by simp
  show ?thesis
    by (subst utf8_dec.simps) (simp only: n0 b0 b2 chk v if_True if_False list.case)
qed

lemma utf8_dec_4:
  assumes "w < 5" "x < 64" "y < 64" "z < 64" "w = 0 \<longrightarrow> 16 \<le> x" "w = 4 \<longrightarrow> x < 16"
  shows "utf8_dec ((0xF0 + w) # (0x80 + x) # (0x80 + y) # (0x80 + z) # rest)
           = (w * 262144 + x * 4096 + y * 64 + z) # utf8_dec rest"
proof -
  have b0: "0xF0 + w < 0xF5" using assms by arith
  have n0: "\<not> 0xF0 + w < 0x80" "\<not> 0xF0 + w < 0xC2" "\<not> 0xF0 + w < 0xE0"
    "\<not> 0xF0 + w < 0xF0" by arith+
  have b1: "is_cont (0x80 + x)" using assms by (simp add: is_cont_def)
  have b2: "(\<not> is_cont (0x80 + y)) = False" using assms by (simp add: is_cont_def)
  have b3: "is_cont (0x80 + z)" using assms by (simp add: is_cont_def)
  have f0: "\<not> (0xF0 + w = 0xF0 \<and> 0x80 + x < 0x90)" using assms by arith
  have f4: "\<not> (0xF0 + w = 0xF4 \<and> 0x90 \<le> 0x80 + x)" using assms by arith
  have chk: "(\<not> is_cont (0x80 + x) \<or> (0xF0 + w = 0xF0 \<and> 0x80 + x < 0x90)
               \<or> (0xF0 + w = 0xF4 \<and> 0x90 \<le> 0x80 + x)) = False"
    using b1 f0 f4 by blast
  have v: "(0xF0 + w - 0xF0) * 262144 + (0x80 + x - 0x80) * 4096 + (0x80 + y - 0x80) * 64
             + (0x80 + z - 0x80) = w * 262144 + x * 4096 + y * 64 + z" by simp
  show ?thesis
    by (subst utf8_dec.simps) (simp only: n0 b0 b2 b3 chk v if_True if_False list.case)
qed


lemma utf8_char_roundtrip:
  assumes "utf8_char c = Some bs"
  shows "utf8_dec (map unat bs @ rest) = c # utf8_dec rest"
proof -
  consider (one) "c < 0x80"
    | (two) "0x80 \<le> c" "c < 0x800"
    | (three) "0x800 \<le> c" "c < 0x10000" "\<not> (0xD800 \<le> c \<and> c < 0xE000)"
    | (four) "0x10000 \<le> c" "c < 0x110000"
    | (none) "(0xD800 \<le> c \<and> c < 0xE000) \<or> 0x110000 \<le> c"
    by linarith
  then show ?thesis
  proof cases
    case one
    then have "bs = [of_nat c]" using assms by (simp add: utf8_char_def)
    moreover have "unat (of_nat c :: byte) = c" using one by (simp add: unat_byte)
    ultimately show ?thesis using one by (simp add: utf8_dec_1)
  next
    case two
    define x y where "x = c div 64" and "y = c mod 64"
    have c: "c = x * 64 + y" and y: "y < 64" unfolding x_def y_def by simp_all
    have x: "2 \<le> x" "x < 32" using two c y by arith+
    have "bs = [of_nat (0xC0 + x), of_nat (0x80 + y)]"
      using assms two unfolding x_def y_def by (simp add: utf8_char_def)
    moreover have "unat (of_nat (0xC0 + x) :: byte) = 0xC0 + x"
      "unat (of_nat (0x80 + y) :: byte) = 0x80 + y"
      by (rule unat_byte, use x y in arith)+
    ultimately show ?thesis
      using utf8_dec_2 [OF x y, of rest] c by simp
  next
    case three
    define x y z where "x = c div 4096" and "y = c div 64 mod 64" and "z = c mod 64"
    have c: "c = x * 4096 + y * 64 + z" unfolding x_def y_def z_def by (rule split3)
    have yz: "y < 64" "z < 64" unfolding y_def z_def by simp_all
    have x: "x < 16" using three c yz by arith
    have e0: "x = 0 \<longrightarrow> 32 \<le> y" using three c yz by arith
    have ed: "x = 13 \<longrightarrow> y < 32" using three c yz by arith
    have "bs = [of_nat (0xE0 + x), of_nat (0x80 + y), of_nat (0x80 + z)]"
      using assms three unfolding x_def y_def z_def by (simp add: utf8_char_def)
    moreover have "unat (of_nat (0xE0 + x) :: byte) = 0xE0 + x"
      "unat (of_nat (0x80 + y) :: byte) = 0x80 + y"
      "unat (of_nat (0x80 + z) :: byte) = 0x80 + z"
      by (rule unat_byte, use x yz in arith)+
    ultimately show ?thesis
      using utf8_dec_3 [OF x yz e0 ed, of rest] c by simp
  next
    case four
    define w x y z where "w = c div 262144" and "x = c div 4096 mod 64"
      and "y = c div 64 mod 64" and "z = c mod 64"
    have c: "c = w * 262144 + x * 4096 + y * 64 + z"
      unfolding w_def x_def y_def z_def by (rule split4)
    have xyz: "x < 64" "y < 64" "z < 64" unfolding x_def y_def z_def by simp_all
    have w: "w < 5" using four c xyz by arith
    have f0: "w = 0 \<longrightarrow> 16 \<le> x" using four c xyz by arith
    have f4: "w = 4 \<longrightarrow> x < 16" using four c xyz by arith
    have "bs = [of_nat (0xF0 + w), of_nat (0x80 + x), of_nat (0x80 + y), of_nat (0x80 + z)]"
      using assms four unfolding w_def x_def y_def z_def by (simp add: utf8_char_def)
    moreover have "unat (of_nat (0xF0 + w) :: byte) = 0xF0 + w"
      "unat (of_nat (0x80 + x) :: byte) = 0x80 + x"
      "unat (of_nat (0x80 + y) :: byte) = 0x80 + y"
      "unat (of_nat (0x80 + z) :: byte) = 0x80 + z"
      by (rule unat_byte, use w xyz in arith)+
    ultimately show ?thesis
      using utf8_dec_4 [OF w xyz f0 f4, of rest] c by simp
  next
    case none
    then have "utf8_char c = None" by (auto simp: utf8_char_def)
    with assms show ?thesis by simp
  qed
qed

lemma utf8_encode_roundtrip:
  "utf8_encode s = Inr bs \<Longrightarrow> utf8_dec (map unat bs @ rest) = s @ utf8_dec rest"
proof (induction s arbitrary: bs)
  case Nil
  then show ?case by simp
next
  case (Cons c cs)
  from Cons.prems obtain b1 b2 where
    c: "utf8_char c = Some b1" and cs: "utf8_encode cs = Inr b2" and bs: "bs = b1 @ b2"
    by (auto split: option.splits sum.splits)
  have "utf8_dec (map unat b1 @ (map unat b2 @ rest)) = c # utf8_dec (map unat b2 @ rest)"
    using c by (rule utf8_char_roundtrip)
  with Cons.IH [OF cs] bs show ?case by simp
qed

lemma utf8_decode_encode:
  "utf8_encode s = Inr bs \<Longrightarrow> utf8_decode_replace bs = s"
  using utf8_encode_roundtrip [of s bs "[]"]
  by (simp add: utf8_decode_replace_def utf8_dec.simps(1))

lemma utf8_encode_append:
  "utf8_encode (a @ b) =
     (case utf8_encode a of
        Inl e \<Rightarrow> Inl e
      | Inr x \<Rightarrow> (case utf8_encode b of Inl e \<Rightarrow> Inl e | Inr y \<Rightarrow> Inr (x @ y)))"
  by (induction a) (auto split: option.splits sum.splits)

lemma utf8_encode_ascii:
  "list_all (\<lambda>c. c < 0x80) s \<Longrightarrow> utf8_encode s = Inr (map of_nat s)"
  by (induction s) (auto simp: utf8_char_def)

lemma length_dec_digits_pos: "Suc 0 \<le> length (dec_digits n)"
  by (subst dec_digits.simps) simp

lemma length_dec_digits_mono: "i \<le> n \<Longrightarrow> length (dec_digits i) \<le> length (dec_digits n)"
proof (induction n arbitrary: i rule: dec_digits.induct)
  case (1 n)
  show ?case
  proof (cases "i < 10")
    case True
    then have "length (dec_digits i) = 1" by (subst dec_digits.simps) simp
    with length_dec_digits_pos [of n] show ?thesis by simp
  next
    case False
    with "1.prems" have n: "\<not> n < 10" by simp
    from "1.prems" have "i div 10 \<le> n div 10" by (rule div_le_mono)
    with "1.IH" n have "length (dec_digits (i div 10)) \<le> length (dec_digits (n div 10))"
      by simp
    moreover have "length (dec_digits i) = Suc (length (dec_digits (i div 10)))"
      using False by (subst dec_digits.simps) simp
    moreover have "length (dec_digits n) = Suc (length (dec_digits (n div 10)))"
      using n by (subst dec_digits.simps) simp
    ultimately show ?thesis by simp
  qed
qed

lemma length_fmt_0d: "length (fmt_0d w n) = max w (length (dec_digits n))"
  by (simp add: fmt_0d_def)

lemma length_fmt_0d_mono: "i \<le> n \<Longrightarrow> length (fmt_0d w i) \<le> length (fmt_0d w n)"
  using length_dec_digits_mono [of i n] by (simp add: length_fmt_0d)

lemma digit_char_ascii: "of_char (digit_char d) < (0x80::nat)"
  by (simp add: digit_char_def)

lemma fmt_0d_ascii: "list_all (\<lambda>c. c < 0x80) (str_of (fmt_0d w n))"
  by (auto simp: fmt_0d_def str_of_def list_all_iff digit_char_ascii)

lemma copy_prefix_ascii: "list_all (\<lambda>c. c < 0x80) (str_of (''copy_'' @ fmt_0d 4 i @ ''_''))"
  using fmt_0d_ascii [of 4 i] by (simp add: str_of_def)

lemma utf8_encode_copy_name:
  assumes "utf8_encode base = Inr base_b"
  shows "utf8_encode (copy_name i base)
           = Inr (map of_nat (str_of (''copy_'' @ fmt_0d 4 i @ ''_'')) @ base_b)"
proof -
  have "utf8_encode (str_of (''copy_'' @ fmt_0d 4 i @ ''_''))
          = Inr (map of_nat (str_of (''copy_'' @ fmt_0d 4 i @ ''_'')))"
    by (rule utf8_encode_ascii [OF copy_prefix_ascii])
  then show ?thesis
    unfolding copy_name_def utf8_encode_append by (simp only: assms sum.case)
qed

lemma length_le_bytes: "length (le_bytes k n) = k"
  by (induction k arbitrary: n) simp_all

lemma le_val_le_bytes: "n < 256 ^ k \<Longrightarrow> le_val (le_bytes k n) = n"
proof (induction k arbitrary: n)
  case 0
  then show ?case by simp
next
  case (Suc k)
  then have "n div 256 < 256 ^ k"
    by (simp add: less_mult_imp_div_less mult.commute)
  with Suc.IH have "le_val (le_bytes k (n div 256)) = n div 256" by blast
  then show ?case by (simp add: unat_of_nat)
qed

lemma struct_unpack_pack:
  "n < 256 ^ k \<Longrightarrow> struct_unpack k (le_bytes k n) = Inr n"
  by (simp add: struct_unpack_def length_le_bytes le_val_le_bytes)

lemma pack_entry_ok:
  assumes "utf8_encode (copy_name i base) = Inr name_b"
    and "length name_b < 65536" and "length data < 2 ^ 64"
  shows "pack_entry data base i
           = Inr (le_bytes 2 (length name_b) @ name_b @ le_bytes 8 (length data) @ data)"
  using assms by (simp add: pack_entry_def struct_pack_def)

lemma unpack_entries_entry:
  assumes "utf8_encode name = Inr name_b"
    and "length name_b < 65536" and "length data < 2 ^ 64"
  shows "unpack_entries (Suc n)
           ((le_bytes 2 (length name_b) @ name_b @ le_bytes 8 (length data) @ data) @ rest)
         = (case unpack_entries n rest of
              Inl e \<Rightarrow> Inl e
            | Inr files \<Rightarrow> Inr ((name, data) # files))"
proof -
  have l2: "struct_unpack 2 (le_bytes 2 (length name_b)) = Inr (length name_b)"
    using assms(2) by (simp add: struct_unpack_pack)
  have l8: "struct_unpack 8 (le_bytes 8 (length data)) = Inr (length data)"
    using assms(3) by (simp add: struct_unpack_pack)
  have dec: "utf8_decode_replace name_b = name"
    using assms(1) by (rule utf8_decode_encode)
  show ?thesis
    by (simp add: length_le_bytes l2 l8 dec Let_def del: le_bytes.simps split: sum.splits)
qed


lemma pack_entries_ok:
  assumes "\<And>i. i \<in> set is \<Longrightarrow> \<exists>name_b. utf8_encode (copy_name i base) = Inr name_b
              \<and> length name_b < 65536"
    and "length data < 2 ^ 64"
  shows "\<exists>bs. pack_entries data base is = Inr bs
           \<and> (\<forall>rest. unpack_entries (length is) (bs @ rest)
                  = Inr (map (\<lambda>i. (copy_name i base, data)) is))"
  using assms(1)
proof (induction "is")
  case Nil
  then show ?case by simp
next
  case (Cons i "is")
  from Cons.prems [of i] obtain name_b where
    nb: "utf8_encode (copy_name i base) = Inr name_b" "length name_b < 65536"
    by auto
  from Cons.IH Cons.prems obtain bs where
    bs: "pack_entries data base is = Inr bs"
    and un: "\<And>rest. unpack_entries (length is) (bs @ rest)
                = Inr (map (\<lambda>i. (copy_name i base, data)) is)"
    by auto
  let ?e = "le_bytes 2 (length name_b) @ name_b @ le_bytes 8 (length data) @ data"
  have pe: "pack_entry data base i = Inr ?e"
    using nb assms(2) by (rule pack_entry_ok)
  have "pack_entries data base (i # is) = Inr (?e @ bs)"
    by (simp add: pe bs)
  moreover have "unpack_entries (length (i # is)) ((?e @ bs) @ rest)
                   = Inr (map (\<lambda>i. (copy_name i base, data)) (i # is))" for rest
  proof -
    have "unpack_entries (Suc (length is)) (?e @ (bs @ rest))
            = (case unpack_entries (length is) (bs @ rest) of
                 Inl e \<Rightarrow> Inl e
               | Inr files \<Rightarrow> Inr ((copy_name i base, data) # files))"
      using nb assms(2) by (rule unpack_entries_entry)
    then show ?thesis by (simp add: un)
  qed
  ultimately show ?case by blast
qed

subsection \<open>Container codec: formatted names are distinct\<close>

lemma dec_value_snoc: "dec_value (ds @ [d]) = 10 * dec_value ds + d"
  by (simp add: dec_value_def)

lemma dec_value_dec_digits: "dec_value (dec_digits n) = n"
proof (induction n rule: dec_digits.induct)
  case (1 n)
  show ?case
  proof (cases "n < 10")
    case True
    then show ?thesis by (subst dec_digits.simps) (simp add: dec_value_def)
  next
    case False
    with "1.IH" have "dec_value (dec_digits (n div 10)) = n div 10" by simp
    with False show ?thesis
      by (subst dec_digits.simps) (simp add: dec_value_snoc)
  qed
qed

lemma dec_digits_lt_10: "d \<in> set (dec_digits n) \<Longrightarrow> d < 10"
proof (induction n rule: dec_digits.induct)
  case (1 n)
  show ?case
  proof (cases "n < 10")
    case True
    then have "dec_digits n = [n]" by (subst dec_digits.simps) simp
    with "1.prems" True show ?thesis by simp
  next
    case False
    then have "dec_digits n = dec_digits (n div 10) @ [n mod 10]"
      by (subst dec_digits.simps) simp
    with "1.prems" have "d \<in> set (dec_digits (n div 10)) \<or> d = n mod 10"
      by auto
    then show ?thesis
    proof
      assume "d \<in> set (dec_digits (n div 10))"
      with "1.IH" False show ?thesis by blast
    next
      assume "d = n mod 10"
      then show ?thesis by simp
    qed
  qed
qed

lemma char_digit_digit_char: "d < 10 \<Longrightarrow> char_digit (digit_char d) = d"
  by (auto simp: char_digit_def digit_char_def)

lemma dec_value_zeros: "dec_value (replicate k 0 @ ds) = dec_value ds"
  by (induction k) (simp_all add: dec_value_def)

lemma map_char_digit_digits: "map char_digit (map digit_char (dec_digits n)) = dec_digits n"
proof -
  have "map (char_digit \<circ> digit_char) (dec_digits n) = map id (dec_digits n)"
    by (rule map_cong [OF refl]) (simp add: char_digit_digit_char dec_digits_lt_10)
  then show ?thesis by simp
qed

lemma dec_value_fmt_0d: "dec_value (map char_digit (fmt_0d w n)) = n"
proof -
  have "char_digit CHR ''0'' = 0" by (simp add: char_digit_def)
  then have "map char_digit (fmt_0d w n)
      = replicate (w - length (dec_digits n)) 0 @ dec_digits n"
    by (simp add: fmt_0d_def map_char_digit_digits del: map_map)
  then show ?thesis by (simp add: dec_value_zeros dec_value_dec_digits)
qed

lemma fmt_0d_inj: "fmt_0d w i = fmt_0d w j \<Longrightarrow> i = j"
proof -
  assume eq: "fmt_0d w i = fmt_0d w j"
  have "i = dec_value (map char_digit (fmt_0d w i))" by (simp only: dec_value_fmt_0d)
  also have "\<dots> = dec_value (map char_digit (fmt_0d w j))" by (simp only: eq)
  also have "\<dots> = j" by (rule dec_value_fmt_0d)
  finally show "i = j" .
qed

lemma str_of_inj: "str_of a = str_of b \<Longrightarrow> a = b"
proof -
  assume "str_of a = str_of b"
  then have "map (of_char :: char \<Rightarrow> nat) a = map of_char b" by (simp add: str_of_def)
  moreover have "inj (of_char :: char \<Rightarrow> nat)" by (simp add: inj_def)
  ultimately show "a = b" by (rule map_injective)
qed


lemma copy_name_inj: "copy_name i base = copy_name j base \<Longrightarrow> i = j"
proof -
  assume "copy_name i base = copy_name j base"
  then have "str_of (''copy_'' @ fmt_0d 4 i @ ''_'') = str_of (''copy_'' @ fmt_0d 4 j @ ''_'')"
    unfolding copy_name_def by (simp only: append_same_eq)
  then have "''copy_'' @ fmt_0d 4 i @ ''_'' = ''copy_'' @ fmt_0d 4 j @ ''_''"
    by (rule str_of_inj)
  then have "fmt_0d 4 i = fmt_0d 4 j" by (simp only: same_append_eq append_same_eq)
  then show "i = j" by (rule fmt_0d_inj)
qed

lemma distinct_copy_names: "distinct (map (\<lambda>i. copy_name i base) is) = distinct is"
proof -
  have "inj_on (\<lambda>i. copy_name i base) (set is)"
    by (rule inj_onI) (rule copy_name_inj)
  then show ?thesis by (simp add: distinct_map)
qed

lemma copy_name_encoded:
  assumes "utf8_encode base = Inr base_b"
    and "i \<le> copies"
    and "length base_b + length (fmt_0d 4 copies) + 6 < 65536"
  shows "\<exists>name_b. utf8_encode (copy_name i base) = Inr name_b \<and> length name_b < 65536"
proof -
  let ?p = "str_of (''copy_'' @ fmt_0d 4 i @ ''_'')"
  have "utf8_encode (copy_name i base) = Inr (map of_nat ?p @ base_b)"
    using assms(1) by (rule utf8_encode_copy_name)
  moreover have "length (map of_nat ?p @ base_b) = length base_b + length (fmt_0d 4 i) + 6"
    by (simp add: str_of_def)
  moreover have "length (fmt_0d 4 i) \<le> length (fmt_0d 4 copies)"
    using assms(2) by (rule length_fmt_0d_mono)
  ultimately show ?thesis using assms(3) by simp
qed

lemma pack_container_ok:
  assumes "copies < 2 ^ 32" and "length data < 2 ^ 64"
    and "utf8_encode base = Inr base_b"
    and "length base_b + length (fmt_0d 4 copies) + 6 < 65536"
  shows "\<exists>es. pack_container data copies base = Inr (le_bytes 4 copies @ es)
           \<and> pack_entries data base [1..<copies + 1] = Inr es
           \<and> unpack_entries copies es
               = Inr (map (\<lambda>i. (copy_name i base, data)) [1..<copies + 1])"
proof -
  have "\<exists>name_b. utf8_encode (copy_name i base) = Inr name_b \<and> length name_b < 65536"
    if "i \<in> set [1..<copies + 1]" for i
    using assms(3) _ assms(4) by (rule copy_name_encoded) (use that in auto)
  from pack_entries_ok [OF this assms(2)] obtain es where
    es: "pack_entries data base [1..<copies + 1] = Inr es"
    and un: "\<And>rest. unpack_entries (length [1..<copies + 1]) (es @ rest)
               = Inr (map (\<lambda>i. (copy_name i base, data)) [1..<copies + 1])"
    by blast
  have "pack_container data copies base = Inr (le_bytes 4 copies @ es)"
    using assms(1) es by (simp add: pack_container_def struct_pack_def del: upt_Suc)
  moreover have "unpack_entries copies es
      = Inr (map (\<lambda>i. (copy_name i base, data)) [1..<copies + 1])"
    using un [of "[]"] by (simp del: upt_Suc)
  ultimately show ?thesis using es by blast
qed

lemma unpack_container_header:
  "n < 2 ^ 32 \<Longrightarrow> unpack_container (le_bytes 4 n @ es) = unpack_entries n es"
  by (simp add: unpack_container_def length_le_bytes struct_unpack_pack del: le_bytes.simps)

subsection \<open>Container codec: round trip\<close>

lemma write_files_same:
  "(\<And>name d. (name, d) \<in> set files \<Longrightarrow> d = data) \<Longrightarrow>
     write_files files dir
       = (\<lambda>name. if name \<in> fst ` set files then Some data else dir name)"
proof (induction files arbitrary: dir)
  case Nil
  then show ?case by simp
next
  case (Cons a files)
  obtain name d where a: "a = (name, d)" by (cases a)
  have d: "d = data" using Cons.prems [of name d] a by simp
  have "write_files files (dir(name \<mapsto> d))
      = (\<lambda>n. if n \<in> fst ` set files then Some data else (dir(name \<mapsto> d)) n)"
    using Cons.prems by (intro Cons.IH) auto
  then show ?case by (auto simp: a d)
qed

lemma replicate_numeral: "replicate (numeral k) x = x # replicate (pred_numeral k) x"
  by (simp add: numeral_eq_Suc)

lemma fmt_0d_4_small:
  "fmt_0d 4 1 = ''0001''" "fmt_0d 4 2 = ''0002''"
  by (simp_all add: fmt_0d_def digit_char_def dec_digits.simps replicate_numeral)

text \<open>
  C1 (as stated, refuted): the claim is for every base name and every copy count. A base name
  with a lone surrogate (what Python gives for a file name with a byte that is not UTF-8)
  cannot be encoded, and a count of \<open>2^32\<close> does not fit the header: \<^verbatim>\<open>pack_container\<close>
  raises and writes no container.
\<close>

theorem pack_container_raises_counterexample:
  "pack_container [0x41] 1 [0xDCFF] = Inl UnicodeEncodeError
   \<and> pack_container [0x41] 4294967296 (str_of ''a.bin'') = Inl StructError"
proof -
  have pre: "utf8_encode (str_of (''copy_'' @ fmt_0d 4 1 @ ''_''))
               = Inr (map of_nat (str_of (''copy_'' @ fmt_0d 4 1 @ ''_'')))"
    by (rule utf8_encode_ascii [OF copy_prefix_ascii])
  have suf: "utf8_encode [0xDCFF] = Inl UnicodeEncodeError"
    by (simp add: utf8_char_def)
  have "utf8_encode (copy_name 1 [0xDCFF]) = Inl UnicodeEncodeError"
    unfolding copy_name_def utf8_encode_append by (simp only: pre suf sum.case)
  then have "pack_entry [0x41] [0xDCFF] 1 = Inl UnicodeEncodeError"
    by (simp add: pack_entry_def)
  then have "pack_container [0x41] 1 [0xDCFF] = Inl UnicodeEncodeError"
    by (simp add: pack_container_def struct_pack_def)
  moreover have "pack_container [0x41] 4294967296 (str_of ''a.bin'') = Inl StructError"
    by (simp add: pack_container_def struct_pack_def)
  ultimately show ?thesis by simp
qed

text \<open>
  C1 (amended): for every payload shorter than \<open>2^64\<close> bytes, every copy count \<open>N < 2^32\<close>
  and every base name that UTF-8 can encode (no lone surrogate) such that the longest entry
  name, \<^verbatim>\<open>copy_<N>_<base>\<close>, takes fewer than \<open>2^16\<close> bytes, \<^verbatim>\<open>pack_container\<close> writes a
  container, and unpacking it yields exactly \<open>N\<close> files in encounter order, with pairwise
  different names, each byte-identical to the payload, the \<open>i\<close>-th named
  \<^verbatim>\<open>copy_\<close> + the 1-based index zero-padded to 4 digits + \<^verbatim>\<open>_\<close> + the base name.
\<close>

theorem pack_unpack_roundtrip:
  assumes "copies < 2 ^ 32" and "length data < 2 ^ 64"
    and "utf8_encode base = Inr base_b"
    and "length base_b + length (fmt_0d 4 copies) + 6 < 65536"
  shows "\<exists>f files.
           pack_container data copies base = Inr f
           \<and> unpack_container f = Inr files
           \<and> files = map (\<lambda>i. (str_of (''copy_'' @ fmt_0d 4 i @ ''_'') @ base, data))
                        [1..<copies + 1]
           \<and> length files = copies
           \<and> distinct (map fst files)
           \<and> write_files files Map.empty
               = (\<lambda>name. if name \<in> fst ` set files then Some data else None)"
proof -
  let ?files = "map (\<lambda>i. (copy_name i base, data)) [1..<copies + 1]"
  from pack_container_ok [OF assms] obtain es where
    p: "pack_container data copies base = Inr (le_bytes 4 copies @ es)"
    and u: "unpack_entries copies es = Inr ?files"
    by blast
  have 1: "unpack_container (le_bytes 4 copies @ es) = Inr ?files"
    using assms(1) u by (simp only: unpack_container_header)
  have 2: "?files = map (\<lambda>i. (str_of (''copy_'' @ fmt_0d 4 i @ ''_'') @ base, data))
                      [1..<copies + 1]"
    by (simp only: copy_name_def)
  have 3: "length ?files = copies" by (simp del: upt_Suc)
  have "map fst ?files = map (\<lambda>i. copy_name i base) [1..<copies + 1]"
    by (simp add: comp_def del: upt_Suc)
  then have 4: "distinct (map fst ?files)"
    by (simp only: distinct_copy_names distinct_upt)
  have 5: "write_files ?files Map.empty
             = (\<lambda>name. if name \<in> fst ` set ?files then Some data else None)"
    by (rule write_files_same) (auto simp del: upt_Suc)
  from p 1 2 3 4 5 show ?thesis by blast
qed

theorem pack_unpack_roundtrip_witness:
  "\<exists>f. pack_container [1, 2, 3] 2 (str_of ''a.b'') = Inr f
       \<and> unpack_container f
           = Inr [(str_of ''copy_0001_a.b'', [1, 2, 3]), (str_of ''copy_0002_a.b'', [1, 2, 3])]"
proof -
  have e: "utf8_encode (str_of ''a.b'') = Inr [97, 46, 98]"
    by (simp add: str_of_def utf8_char_def)
  have l: "length [97, 46, 98 :: byte] + length (fmt_0d 4 2) + 6 < 65536"
    by (simp add: fmt_0d_4_small)
  have u: "[1..<2 + 1] = [1, 2 :: nat]"
    by (simp add: upt_rec)
  have n: "str_of (''copy_'' @ fmt_0d 4 1 @ ''_'') @ str_of ''a.b'' = str_of ''copy_0001_a.b''"
    "str_of (''copy_'' @ fmt_0d 4 2 @ ''_'') @ str_of ''a.b'' = str_of ''copy_0002_a.b''"
    using fmt_0d_4_small by (simp_all add: str_of_def)
  from pack_unpack_roundtrip [of 2 "[1, 2, 3]" "str_of ''a.b''" "[97, 46, 98]", OF _ _ e l]
  obtain f files where "pack_container [1, 2, 3] 2 (str_of ''a.b'') = Inr f"
    and "unpack_container f = Inr files"
    and "files = map (\<lambda>i. (str_of (''copy_'' @ fmt_0d 4 i @ ''_'') @ str_of ''a.b'', [1, 2, 3]))
                   [1..<2 + 1]"
    by auto
  then show ?thesis unfolding u by (auto simp only: list.map n)
qed

subsection \<open>Container codec: the sniffing check\<close>

lemma is_container_iff:
  "is_container f \<longleftrightarrow>
     (let n = le_val (take 4 f);
          name_len = le_val (take 2 (drop 4 f));
          size = le_val (take 8 (drop (6 + name_len) f))
      in 4 \<le> length f \<and> 0 < n \<and> n \<le> 1000000
         \<and> 6 \<le> length f \<and> 0 < name_len \<and> name_len \<le> 4096
         \<and> 14 + name_len \<le> length f
         \<and> size + 14 + name_len \<le> length f)"
  unfolding is_container_def Let_def
  by (auto simp: min_def)

lemma is_container_shape:
  assumes "n < 2 ^ 32" and "length name_b < 65536" and "d < 2 ^ 64"
  shows "is_container (le_bytes 4 n @ le_bytes 2 (length name_b) @ name_b @ le_bytes 8 d @ tail)
           \<longleftrightarrow> 0 < n \<and> n \<le> 1000000 \<and> 0 < length name_b \<and> length name_b \<le> 4096
                 \<and> d \<le> length tail"
proof -
  let ?f = "le_bytes 4 n @ le_bytes 2 (length name_b) @ name_b @ le_bytes 8 d @ tail"
  have n: "le_val (take 4 ?f) = n"
    using assms(1) by (simp add: length_le_bytes le_val_le_bytes del: le_bytes.simps)
  have l: "le_val (take 2 (drop 4 ?f)) = length name_b"
    using assms(2) by (simp add: length_le_bytes le_val_le_bytes del: le_bytes.simps)
  have s: "le_val (take 8 (drop (6 + length name_b) ?f)) = d"
    using assms(3) by (simp add: length_le_bytes le_val_le_bytes del: le_bytes.simps)
  have len: "length ?f = 14 + length name_b + length tail"
    by (simp add: length_le_bytes del: le_bytes.simps)
  show ?thesis
    unfolding is_container_iff Let_def n l s len by auto
qed

lemma length_dec_digits_le: "0 < k \<Longrightarrow> n < 10 ^ k \<Longrightarrow> length (dec_digits n) \<le> k"
proof (induction k arbitrary: n)
  case 0
  then show ?case by simp
next
  case (Suc k)
  show ?case
  proof (cases "n < 10")
    case True
    then have "dec_digits n = [n]" by (subst dec_digits.simps) simp
    then show ?thesis by simp
  next
    case False
    then have d: "dec_digits n = dec_digits (n div 10) @ [n mod 10]"
      by (subst dec_digits.simps) simp
    from False Suc.prems have k: "0 < k" by (cases k) simp_all
    from Suc.prems have "n div 10 < 10 ^ k"
      by (simp add: less_mult_imp_div_less mult.commute)
    with Suc.IH k have "length (dec_digits (n div 10)) \<le> k" by blast
    with d show ?thesis by simp
  qed
qed

lemma length_fmt_0d_4_le: "n \<le> 1000000 \<Longrightarrow> length (fmt_0d 4 n) \<le> 7"
  using length_dec_digits_le [of 7 n] by (simp add: length_fmt_0d)

lemma pack_container_shape:
  assumes "1 \<le> copies" and "copies < 2 ^ 32" and "length data < 2 ^ 64"
    and "utf8_encode base = Inr base_b"
    and "length base_b + length (fmt_0d 4 copies) + 6 < 65536"
  shows "\<exists>name_b tail.
           pack_container data copies base
             = Inr (le_bytes 4 copies @ le_bytes 2 (length name_b) @ name_b
                      @ le_bytes 8 (length data) @ data @ tail)
           \<and> length name_b = length base_b + 10"
proof -
  let ?p = "str_of (''copy_'' @ fmt_0d 4 1 @ ''_'')"
  let ?name_b = "map of_nat ?p @ base_b"
  from pack_container_ok [OF assms(2-5)] obtain es where
    p: "pack_container data copies base = Inr (le_bytes 4 copies @ es)"
    and es: "pack_entries data base [1..<copies + 1] = Inr es"
    by blast
  have enc: "utf8_encode (copy_name 1 base) = Inr ?name_b"
    using assms(4) by (rule utf8_encode_copy_name)
  have len: "length ?name_b = length base_b + 10"
    using fmt_0d_4_small by (simp add: str_of_def)
  have "length (fmt_0d 4 1) \<le> length (fmt_0d 4 copies)"
    using assms(1) by (rule length_fmt_0d_mono)
  with assms(5) have lt: "length ?name_b < 65536"
    by (simp add: str_of_def)
  have pe: "pack_entry data base 1
      = Inr (le_bytes 2 (length ?name_b) @ ?name_b @ le_bytes 8 (length data) @ data)"
    using enc lt assms(3) by (rule pack_entry_ok)
  have "[1..<copies + 1] = 1 # [Suc 1..<copies + 1]"
    by (rule upt_conv_Cons) (use assms(1) in simp)
  with es have "pack_entries data base (1 # [Suc 1..<copies + 1]) = Inr es"
    by (simp only:)
  then obtain tail where
    "es = (le_bytes 2 (length ?name_b) @ ?name_b @ le_bytes 8 (length data) @ data) @ tail"
    unfolding pack_entries.simps pe by (auto split: sum.splits)
  with p len show ?thesis by (metis append.assoc)
qed

lemma sniff_packed_iff:
  assumes "1 \<le> copies" and "copies < 2 ^ 32" and "length data < 2 ^ 64"
    and "utf8_encode base = Inr base_b"
    and "length base_b + length (fmt_0d 4 copies) + 6 < 65536"
  shows "sniff_packed data copies base
           = Some (copies \<le> 1000000 \<and> length base_b + 10 \<le> 4096)"
proof -
  from pack_container_shape [OF assms] obtain name_b tail where
    p: "pack_container data copies base
          = Inr (le_bytes 4 copies @ le_bytes 2 (length name_b) @ name_b
                   @ le_bytes 8 (length data) @ data @ tail)"
    and len: "length name_b = length base_b + 10"
    by blast
  have lt: "length name_b < 65536"
    using assms(5) len length_fmt_0d [of 4 copies] by simp
  have "is_container (le_bytes 4 copies @ le_bytes 2 (length name_b) @ name_b
                   @ le_bytes 8 (length data) @ data @ tail)
          \<longleftrightarrow> 0 < copies \<and> copies \<le> 1000000 \<and> 0 < length name_b \<and> length name_b \<le> 4096
                \<and> length data \<le> length (data @ tail)"
    using assms(2) lt assms(3) by (rule is_container_shape)
  with assms(1) len show ?thesis
    by (simp add: sniff_packed_def p)
qed

text \<open>
  C3 (as stated, refuted): the claim is that the check accepts the output of
  \<^verbatim>\<open>pack_container\<close> for every copy count. With 1000001 copies the container is written
  and its count is above the bound of the check, which rejects it.
\<close>

theorem sniff_rejects_packed_counterexample:
  "sniff_packed [] 1000001 (str_of ''a.bin'') = Some False"
proof -
  have e: "utf8_encode (str_of ''a.bin'') = Inr [97, 46, 98, 105, 110]"
    by (simp add: str_of_def utf8_char_def)
  have "length (dec_digits 1000001) \<le> 7"
    by (rule length_dec_digits_le) simp_all
  then have l: "length [97, 46, 98, 105, 110 :: byte] + length (fmt_0d 4 1000001) + 6 < 65536"
    by (simp add: length_fmt_0d)
  show ?thesis
    using sniff_packed_iff [of 1000001 "[]", OF _ _ _ e l] by simp
qed

text \<open>
  C3 (amended): for every payload shorter than \<open>2^64\<close> bytes, every copy count \<open>N\<close> with
  \<open>1 \<le> N \<le> 1000000\<close> and every base name whose UTF-8 encoding has at most 4086 bytes (so
  that the first entry name has at most 4096), \<^verbatim>\<open>is_container\<close> returns true on the bytes that
  \<^verbatim>\<open>pack_container\<close> produces; and it returns false on any byte blob whose first 4 bytes
  decode, little-endian, to a count of 0 or greater than 1000000, on any blob whose first
  entry's declared name length is 0 or greater than 4096, and on any blob whose first entry's
  declared data length exceeds the remaining bytes.
\<close>

theorem is_container_spec:
  "(1 \<le> copies \<and> copies \<le> 1000000 \<and> length data < 2 ^ 64
      \<and> utf8_encode base = Inr base_b \<and> length base_b \<le> 4086
      \<longrightarrow> sniff_packed data copies base = Some True)
   \<and> (le_val (take 4 f) = 0 \<or> 1000000 < le_val (take 4 f) \<longrightarrow> \<not> is_container f)
   \<and> (le_val (take 2 (drop 4 f)) = 0 \<or> 4096 < le_val (take 2 (drop 4 f))
        \<longrightarrow> \<not> is_container f)
   \<and> (int (length f) - int (14 + le_val (take 2 (drop 4 f)))
          < int (le_val (take 8 (drop (6 + le_val (take 2 (drop 4 f))) f)))
        \<longrightarrow> \<not> is_container f)"
proof -
  have a: "sniff_packed data copies base = Some True"
    if h: "1 \<le> copies" "copies \<le> 1000000" "length data < 2 ^ 64"
      "utf8_encode base = Inr base_b" "length base_b \<le> 4086"
  proof -
    have c: "copies < 2 ^ 32" using h(2) by simp
    have "length (fmt_0d 4 copies) \<le> 7" using h(2) by (rule length_fmt_0d_4_le)
    with h(5) have l: "length base_b + length (fmt_0d 4 copies) + 6 < 65536" by simp
    show ?thesis
      using sniff_packed_iff [OF h(1) c h(3) h(4) l] h(2) h(5) by simp
  qed
  have b: "\<not> is_container f" if "le_val (take 4 f) = 0 \<or> 1000000 < le_val (take 4 f)"
    using that unfolding is_container_iff Let_def by auto
  have c: "\<not> is_container f"
    if "le_val (take 2 (drop 4 f)) = 0 \<or> 4096 < le_val (take 2 (drop 4 f))"
    using that unfolding is_container_iff Let_def by auto
  have d: "\<not> is_container f"
    if "int (length f) - int (14 + le_val (take 2 (drop 4 f)))
          < int (le_val (take 8 (drop (6 + le_val (take 2 (drop 4 f))) f)))"
    using that unfolding is_container_iff Let_def by auto
  from a b c d show ?thesis by blast
qed

theorem is_container_spec_witness:
  "sniff_packed [1, 2, 3] 2 (str_of ''a.b'') = Some True
   \<and> \<not> is_container [0, 0, 0, 0, 0, 0, 9, 0, 0, 0, 0, 0, 0, 0]"
proof -
  have e: "utf8_encode (str_of ''a.b'') = Inr [97, 46, 98]"
    by (simp add: str_of_def utf8_char_def)
  show ?thesis
    using is_container_spec [of 2 "[1, 2, 3]" "str_of ''a.b''" "[97, 46, 98]"
        "[0, 0, 0, 0, 0, 0, 9, 0, 0, 0, 0, 0, 0, 0]"] e
    by simp
qed

subsection \<open>The retry supervisor\<close>

lemma backoff_shift:
  "a < j \<Longrightarrow> (t * 2) * 2 ^ (j - (a + 1)) = (t::int) * 2 ^ (j - a)"
proof -
  assume "a < j"
  then have "j - a = Suc (j - (a + 1))" by simp
  then show ?thesis by simp
qed

lemma backoff_calls:
  "a \<le> b \<Longrightarrow>
     (a, t) # map (\<lambda>j. (j, (t * 2) * 2 ^ (j - (a + 1)))) [a + 1..<b + 1]
       = map (\<lambda>j. (j, (t::int) * 2 ^ (j - a))) [a..<b + 1]"
proof -
  assume ab: "a \<le> b"
  have "map (\<lambda>j. (j, (t * 2) * 2 ^ (j - (a + 1)))) [a + 1..<b + 1]
          = map (\<lambda>j. (j, t * 2 ^ (j - a))) [a + 1..<b + 1]"
  proof (rule map_cong [OF refl])
    fix j
    assume "j \<in> set [a + 1..<b + 1]"
    then have "a < j" by (simp del: upt_Suc)
    then show "(j, (t * 2) * 2 ^ (j - (a + 1))) = (j, t * 2 ^ (j - a))"
      by (simp only: backoff_shift)
  qed
  moreover have "[a..<b + 1] = a # [a + 1..<b + 1]"
    using ab by (simp add: upt_conv_Cons del: upt_Suc)
  ultimately show ?thesis by simp
qed

lemma retry_all_timeout:
  assumes "a \<le> RETRY_MAX"
    and "\<And>j. a \<le> j \<Longrightarrow> j \<le> RETRY_MAX \<Longrightarrow> call j (t * 2 ^ (j - a)) = Inl TimeoutExpired"
  shows "retry call a t = (Exhausted, map (\<lambda>j. (j, t * 2 ^ (j - a))) [a..<RETRY_MAX + 1])"
  using assms
proof (induction "RETRY_MAX - a" arbitrary: a t)
  case 0
  then have a: "a = RETRY_MAX" by simp
  have "call a t = Inl TimeoutExpired" using "0.prems"(2) [of a] a by simp
  then show ?case
    by (subst retry.simps) (simp add: a)
next
  case (Suc n)
  then have lt: "a < RETRY_MAX" by simp
  have c: "call a t = Inl TimeoutExpired" using Suc.prems(2) [of a] lt by simp
  have "retry call (a + 1) (t * 2)
          = (Exhausted, map (\<lambda>j. (j, (t * 2) * 2 ^ (j - (a + 1)))) [a + 1..<RETRY_MAX + 1])"
  proof (rule Suc.hyps(1))
    show "n = RETRY_MAX - (a + 1)" using Suc.hyps(2) by simp
    show "a + 1 \<le> RETRY_MAX" using lt by simp
    show "call j (t * 2 * 2 ^ (j - (a + 1))) = Inl TimeoutExpired"
      if "a + 1 \<le> j" "j \<le> RETRY_MAX" for j
    proof -
      from that have "a < j" "a \<le> j" by simp_all
      then show ?thesis using Suc.prems(2) [of j] that(2) by (simp only: backoff_shift)
    qed
  qed
  then have "retry call a t
      = (Exhausted, (a, t) # map (\<lambda>j. (j, (t * 2) * 2 ^ (j - (a + 1)))) [a + 1..<RETRY_MAX + 1])"
    using c lt by (subst retry.simps) (simp del: upt_Suc)
  then show ?case using lt by (simp only: backoff_calls [OF Suc.prems(1)])
qed

lemma retry_succeeds_at:
  assumes "a \<le> k" and "k \<le> RETRY_MAX"
    and "\<And>j. a \<le> j \<Longrightarrow> j < k \<Longrightarrow> call j (t * 2 ^ (j - a)) = Inl TimeoutExpired"
    and "call k (t * 2 ^ (k - a)) = Inr m"
  shows "retry call a t = (Succeeded m, map (\<lambda>j. (j, t * 2 ^ (j - a))) [a..<k + 1])"
  using assms
proof (induction "k - a" arbitrary: a t)
  case 0
  then have a: "a = k" by simp
  have "call a t = Inr m" using "0.prems"(4) a by simp
  then show ?case
    by (subst retry.simps) (simp add: a)
next
  case (Suc n)
  then have lt: "a < k" by simp
  with Suc.prems(2) have ltR: "\<not> RETRY_MAX \<le> a" by simp
  have c: "call a t = Inl TimeoutExpired" using Suc.prems(3) [of a] lt by simp
  have "retry call (a + 1) (t * 2)
          = (Succeeded m, map (\<lambda>j. (j, (t * 2) * 2 ^ (j - (a + 1)))) [a + 1..<k + 1])"
  proof (rule Suc.hyps(1))
    show "n = k - (a + 1)" using Suc.hyps(2) by simp
    show "a + 1 \<le> k" using lt by simp
    show "k \<le> RETRY_MAX" by (rule Suc.prems(2))
    show "call j (t * 2 * 2 ^ (j - (a + 1))) = Inl TimeoutExpired"
      if "a + 1 \<le> j" "j < k" for j
    proof -
      from that have "a < j" "a \<le> j" by simp_all
      then show ?thesis using Suc.prems(3) [of j] that(2) by (simp only: backoff_shift)
    qed
    show "call k (t * 2 * 2 ^ (k - (a + 1))) = Inr m"
      using Suc.prems(4) lt by (simp only: backoff_shift)
  qed
  then have "retry call a t
      = (Succeeded m, (a, t) # map (\<lambda>j. (j, (t * 2) * 2 ^ (j - (a + 1)))) [a + 1..<k + 1])"
    using c ltR by (subst retry.simps) (simp del: upt_Suc)
  then show ?case by (simp only: backoff_calls [OF Suc.prems(1)])
qed

text \<open>
  C4: when every call of the compressor times out, the retry loop ends exhausted after
  exactly \<open>RETRY_MAX = 6\<close> calls; when the calls before attempt \<open>k \<le> RETRY_MAX\<close> time out and
  the call of attempt \<open>k\<close> returns, the loop ends with what that call returned. In both
  cases the timeout of attempt \<open>j\<close> is the initial estimate doubled \<open>j - 1\<close> times.
\<close>

theorem retry_supervisor:
  "((\<forall>j. 1 \<le> j \<and> j \<le> RETRY_MAX \<longrightarrow> call j (t0 * 2 ^ (j - 1)) = Inl TimeoutExpired)
      \<longrightarrow> retry call 1 t0
            = (Exhausted, map (\<lambda>j. (j, t0 * 2 ^ (j - 1))) [1..<RETRY_MAX + 1])
          \<and> length (snd (retry call 1 t0)) = 6)
   \<and> (1 \<le> k \<and> k \<le> RETRY_MAX
        \<and> (\<forall>j. 1 \<le> j \<and> j < k \<longrightarrow> call j (t0 * 2 ^ (j - 1)) = Inl TimeoutExpired)
        \<and> call k (t0 * 2 ^ (k - 1)) = Inr m
      \<longrightarrow> retry call 1 t0 = (Succeeded m, map (\<lambda>j. (j, t0 * 2 ^ (j - 1))) [1..<k + 1])
          \<and> length (snd (retry call 1 t0)) = k
          \<and> last (snd (retry call 1 t0)) = (k, t0 * 2 ^ (k - 1)))"
proof -
  have a: "retry call 1 t0
             = (Exhausted, map (\<lambda>j. (j, t0 * 2 ^ (j - 1))) [1..<RETRY_MAX + 1])
           \<and> length (snd (retry call 1 t0)) = 6"
    if h: "\<forall>j. 1 \<le> j \<and> j \<le> RETRY_MAX \<longrightarrow> call j (t0 * 2 ^ (j - 1)) = Inl TimeoutExpired"
  proof -
    have "retry call 1 t0
            = (Exhausted, map (\<lambda>j. (j, t0 * 2 ^ (j - 1))) [1..<RETRY_MAX + 1])"
      by (rule retry_all_timeout) (use h in \<open>simp_all add: RETRY_MAX_def\<close>)
    then show ?thesis by (simp add: RETRY_MAX_def del: upt_Suc)
  qed
  have b: "retry call 1 t0 = (Succeeded m, map (\<lambda>j. (j, t0 * 2 ^ (j - 1))) [1..<k + 1])
           \<and> length (snd (retry call 1 t0)) = k
           \<and> last (snd (retry call 1 t0)) = (k, t0 * 2 ^ (k - 1))"
    if h: "1 \<le> k" "k \<le> RETRY_MAX"
      "\<forall>j. 1 \<le> j \<and> j < k \<longrightarrow> call j (t0 * 2 ^ (j - 1)) = Inl TimeoutExpired"
      "call k (t0 * 2 ^ (k - 1)) = Inr m"
  proof -
    have r: "retry call 1 t0 = (Succeeded m, map (\<lambda>j. (j, t0 * 2 ^ (j - 1))) [1..<k + 1])"
      by (rule retry_succeeds_at) (use h in simp_all)
    have "[1..<k + 1] = [1..<k] @ [k]" using h(1) by simp
    then have "last (map (\<lambda>j. (j, t0 * 2 ^ (j - 1))) [1..<k + 1]) = (k, t0 * 2 ^ (k - 1))"
      by (simp only: map_append list.map last_snoc)
    then show ?thesis using r by (simp del: upt_Suc)
  qed
  from a b show ?thesis by blast
qed

theorem retry_supervisor_witness:
  "retry (\<lambda>j t. Inl TimeoutExpired) 1 15000
     = (Exhausted,
        [(1, 15000), (2, 30000), (3, 60000), (4, 120000), (5, 240000), (6, 480000)])
   \<and> retry (\<lambda>j t. if j < 3 then Inl TimeoutExpired
                    else Inr \<lparr>original = 1000, compressed = Some 950, time_s = Fin 2\<rparr>)
        1 15000
     = (Succeeded \<lparr>original = 1000, compressed = Some 950, time_s = Fin 2\<rparr>,
        [(1, 15000), (2, 30000), (3, 60000)])"
proof -
  have u: "[1..<RETRY_MAX + 1] = [1, 2, 3, 4, 5, 6]" "[1..<3 + 1] = [1, 2, 3 :: nat]"
    by (simp_all add: RETRY_MAX_def upt_rec)
  show ?thesis
    using retry_supervisor [of "\<lambda>j t. Inl TimeoutExpired" 15000 3
        "\<lparr>original = 1000, compressed = Some 950, time_s = Fin 2\<rparr>"]
      retry_supervisor [of "\<lambda>j t. if j < 3 then Inl TimeoutExpired
                    else Inr \<lparr>original = 1000, compressed = Some 950, time_s = Fin 2\<rparr>"
        15000 3 "\<lparr>original = 1000, compressed = Some 950, time_s = Fin 2\<rparr>"]
    unfolding u by (simp add: RETRY_MAX_def)
qed

subsection \<open>The run with a missing input file\<close>




subsection \<open>The search loop without an accepted iteration\<close>

lemma measure_iteration_Measured:
  assumes "measure_iteration cfg ev it st = Measured m red s"
  shows "best s = best st"
    and "container_path cfg it \<in> present s"
    and "out_path cfg it \<in> present s"
    and "\<exists>evs. trace s = trace st @ evs \<and> (\<forall>p mf. WriteManifest p mf \<notin> set evs)"
    and "pct_reduction (Some (original m)) (compressed m) = Inr red"
  using assms
  unfolding measure_iteration_def Let_def emit_def
  by (auto split: sum.splits outcome.splits if_splits option.splits)


lemma iteration_Continue:
  "iteration cfg ev it st = Continue st' \<Longrightarrow> best st' \<noteq> None"
  unfolding iteration_def measure_iteration_def Let_def emit_def
  by (auto split: sum.splits outcome.splits if_splits option.splits measured.splits)

lemma iteration_Break:
  assumes "iteration cfg ev it st = Break s"
  shows "best s = best st"
    and "best st = None \<longrightarrow>
           (\<exists>m red. measure_iteration cfg ev it st = Measured m red s
              \<and> \<not> fge red THRESHOLD_PCT)"
proof -
  show "best s = best st"
  proof (cases "measure_iteration cfg ev it st")
    case (Measured m red s6)
    with assms have "s = s6" by (simp add: iteration_def split: if_splits)
    with measure_iteration_Measured(1) [OF Measured] show ?thesis by simp
  next
    case (Ended f)
    with assms have "measure_iteration cfg ev it st = Ended (Break s)"
      by (simp add: iteration_def)
    then show ?thesis
      unfolding measure_iteration_def Let_def emit_def
      by (auto split: sum.splits outcome.splits if_splits option.splits)
  qed
  show "best st = None \<longrightarrow>
           (\<exists>m red. measure_iteration cfg ev it st = Measured m red s
              \<and> \<not> fge red THRESHOLD_PCT)"
  proof
    assume none: "best st = None"
    show "\<exists>m red. measure_iteration cfg ev it st = Measured m red s
              \<and> \<not> fge red THRESHOLD_PCT"
    proof (cases "measure_iteration cfg ev it st")
      case (Measured m red s6)
      with assms show ?thesis by (simp add: iteration_def split: if_splits)
    next
      case (Ended f)
      with assms have "measure_iteration cfg ev it st = Ended (Break s)"
        by (simp add: iteration_def)
      then have False
        using none unfolding measure_iteration_def Let_def emit_def
        by (auto split: sum.splits outcome.splits if_splits option.splits)
      then show ?thesis ..
    qed
  qed
qed

lemma for_loop_keeps_best:
  "best st \<noteq> None \<Longrightarrow> for_loop (iteration cfg ev) its st = (None, s) \<Longrightarrow> best s \<noteq> None"
proof (induction its arbitrary: st)
  case Nil
  then show ?case by simp
next
  case (Cons it its)
  show ?case
  proof (cases "iteration cfg ev it st")
    case (Continue st')
    with Cons.prems(2) have "for_loop (iteration cfg ev) its st' = (None, s)" by simp
    moreover have "best st' \<noteq> None" using Continue by (rule iteration_Continue)
    ultimately show ?thesis by (rule Cons.IH [rotated])
  next
    case (Break st')
    with Cons.prems(2) have "s = st'" by simp
    with iteration_Break(1) [OF Break] Cons.prems(1) show ?thesis by simp
  next
    case (Raise e st')
    with Cons.prems(2) show ?thesis by simp
  qed
qed

lemma fmt_0d_3_1: "fmt_0d 3 1 = ''001''"
  by (simp add: fmt_0d_def digit_char_def dec_digits.simps numeral_2_eq_2)

lemma start_trace:
  "best (start cfg ev) = None"
  "\<forall>p mf. WriteManifest p mf \<notin> set (trace (start cfg ev))"
  by (simp_all add: start_def emit_def init_state_def Let_def)

text \<open>
  C9: if the search loop terminates with no iteration accepted as best, then the first
  iteration reached its last statement with a reduction percentage below
  \<^verbatim>\<open>THRESHOLD_PCT\<close>, and the run does not fail: it copies the container and the compressed
  output of iteration 1 into the final directory, under their own names, and returns
  without writing \<^verbatim>\<open>manifest.json\<close>.
\<close>

theorem main_without_best:
  assumes "src ev \<noteq> None" and "1 \<le> MAX_ITERS cfg"
    and "for_loop (iteration cfg ev) [1..<MAX_ITERS cfg + 1] (start cfg ev) = (None, s)"
    and "best s = None"
  shows "(\<exists>m red. measure_iteration cfg ev 1 (start cfg ev) = Measured m red s
            \<and> pct_reduction (Some (original m)) (compressed m) = Inr red
            \<and> \<not> fge red THRESHOLD_PCT)
         \<and> fst (main cfg ev) = None
         \<and> trace (snd (main cfg ev))
             = trace s @ [MkDir (FINALDIR cfg),
                 CopyFile (container_path cfg 1) (FINALDIR cfg @ ''/container_001.bin''),
                 CopyFile (out_path cfg 1) (FINALDIR cfg @ ''/container_001.'' @ out_ext cfg)]
         \<and> (\<forall>p mf. WriteManifest p mf \<notin> set (trace (snd (main cfg ev))))
         \<and> best (snd (main cfg ev)) = None"
proof -
  have upt: "[1..<MAX_ITERS cfg + 1] = 1 # [Suc 1..<MAX_ITERS cfg + 1]"
    by (rule upt_conv_Cons) (use assms(2) in simp)
  have loop: "for_loop (iteration cfg ev) (1 # [Suc 1..<MAX_ITERS cfg + 1]) (start cfg ev)
                = (None, s)"
    using assms(3) by (simp only: upt)
  have br: "iteration cfg ev 1 (start cfg ev) = Break s"
  proof (cases "iteration cfg ev 1 (start cfg ev)")
    case (Continue st')
    with loop have "for_loop (iteration cfg ev) [Suc 1..<MAX_ITERS cfg + 1] st' = (None, s)"
      by simp
    moreover have "best st' \<noteq> None" using Continue by (rule iteration_Continue)
    ultimately have "best s \<noteq> None" by (rule for_loop_keeps_best [rotated])
    with assms(4) show ?thesis by simp
  next
    case (Break st')
    with loop show ?thesis by simp
  next
    case (Raise e st')
    with loop show ?thesis by simp
  qed
  from iteration_Break(2) [OF br] start_trace(1) [of cfg ev] obtain m red where
    me: "measure_iteration cfg ev 1 (start cfg ev) = Measured m red s"
    and low: "\<not> fge red THRESHOLD_PCT"
    by blast
  note inv = measure_iteration_Measured [OF me]
  from inv(4) obtain evs where
    tr: "trace s = trace (start cfg ev) @ evs" and nom: "\<forall>p mf. WriteManifest p mf \<notin> set evs"
    by blast
  have fin: "fst (finalize cfg s) = None"
    "trace (snd (finalize cfg s)) = trace s @ [MkDir (FINALDIR cfg),
                 CopyFile (container_path cfg 1) (FINALDIR cfg @ ''/container_001.bin''),
                 CopyFile (out_path cfg 1) (FINALDIR cfg @ ''/container_001.'' @ out_ext cfg)]"
    "best (snd (finalize cfg s)) = None"
    using assms(4) inv(2) inv(3) fmt_0d_3_1
    by (simp_all add: finalize_def copy2_def emit_def Let_def)
  have m: "main cfg ev = finalize cfg s"
    using assms(1) assms(3) by (auto simp add: main_def Let_def simp del: upt_Suc)
  have "\<forall>p mf. WriteManifest p mf \<notin> set (trace s)"
    using tr nom start_trace(2) [of cfg ev] by auto
  then show ?thesis
    using me inv(5) low unfolding m fin by auto
qed

end
